theory Spec2Isabelle
  imports Main "HOL-Library.Word"
begin

unbundle bit_operations_syntax

section \<open>Machine integers\<close>

text \<open>
  On the reference platform \<open>std::size_t\<close> and \<open>std::uintmax_t\<close> are unsigned 64-bit
  integers: addition and multiplication wrap modulo \<open>2 ^ 64\<close>.
\<close>

type_synonym u64 = "64 word"

definition SIZE_MAX :: nat where
  "SIZE_MAX = 2 ^ 64 - 1"

section \<open>shared\_memory.hpp\<close>

definition kAlignment :: u64 where
  "kAlignment = 512"

text \<open>
  \<open>template<std::size_t Alignment> align(n)\<close> returns
  \<open>n + (Alignment - 1) & ~(Alignment - 1)\<close>; in C++ the addition binds tighter than
  the bitwise and. The template parameter is the first argument.
\<close>

definition align :: "u64 \<Rightarrow> u64 \<Rightarrow> u64" where
  "align Alignment n = (n + (Alignment - 1)) AND NOT (Alignment - 1)"

section \<open>The C library functions the programs call\<close>

text \<open>
  \<open>std::strtoimax(str, &end, 10)\<close>: skips white space, reads an optional sign and the
  longest run of decimal digits, and clamps the value to the range of \<open>std::intmax_t\<close>.
  The model returns the value and the offset of \<open>end\<close> from \<open>str\<close>; no conversion is
  the offset 0, which is what the programs test with \<open>end == argv[i]\<close>.
\<close>

definition INTMAX_MAX :: int where
  "INTMAX_MAX = 2 ^ 63 - 1"

definition INTMAX_MIN :: int where
  "INTMAX_MIN = - (2 ^ 63)"

definition isspace :: "char \<Rightarrow> bool" where
  "isspace c \<longleftrightarrow> c \<in> set [CHR 0x20, CHR 0x09, CHR 0x0A, CHR 0x0B, CHR 0x0C, CHR 0x0D]"

definition isdigit :: "char \<Rightarrow> bool" where
  "isdigit c \<longleftrightarrow> (48 :: nat) \<le> of_char c \<and> of_char c \<le> (57 :: nat)"

definition digit_value :: "char \<Rightarrow> int" where
  "digit_value c = of_char c - 48"

definition strtoimax :: "string \<Rightarrow> int \<times> nat" where
  "strtoimax str =
     (let spaces = takeWhile isspace str;
          rest = dropWhile isspace str;
          negative = (rest \<noteq> [] \<and> hd rest = CHR ''-'');
          signed = (rest \<noteq> [] \<and> (hd rest = CHR ''-'' \<or> hd rest = CHR ''+''));
          digits = takeWhile isdigit (if signed then tl rest else rest);
          magnitude = foldl (\<lambda>acc c. 10 * acc + digit_value c) 0 digits;
          v = (if negative then - magnitude else magnitude)
      in if digits = [] then (0, 0)
         else (max INTMAX_MIN (min INTMAX_MAX v),
               length spaces + (if signed then 1 else 0) + length digits))"

text \<open>The decimal digits \<open>std::snprintf\<close> writes for \<open>%zu\<close> and \<open>%ju\<close>.\<close>

function dec :: "nat \<Rightarrow> string" where
  "dec n =
     (if n < 10 then [''0123456789'' ! n]
      else dec (n div 10) @ [''0123456789'' ! (n mod 10)])"
  by pat_completeness auto
termination
  by (relation "measure id") auto

declare dec.simps [simp del]

text \<open>
  \<open>std::div\<close> on the bound and the process count. The orchestrator calls it with a
  non-negative dividend and a positive divisor, where the truncating division of C++ is
  \<open>div\<close> and \<open>mod\<close> on natural numbers.
\<close>

definition std_div :: "nat \<Rightarrow> nat \<Rightarrow> nat \<times> nat" where
  "std_div x y = (x div y, x mod y)"

section \<open>The named resources and the streams\<close>

text \<open>
  \<open>config.hpp\<close> is generated by the build and is not among the sources: its two macros
  are parameters of the model.
\<close>

record config =
  PACKAGE_NAME :: string
  CPU_COUNT :: int

text \<open>
  A prime table is a \<open>shm_vector<bool>\<close>. The state both programs act on: the shared
  memory segment named \<open>kSharedMemorySegmentName\<close> (\<open>None\<close> when no segment of that
  name exists; inside it the array named \<open>kPrimeTableArrayName\<close>, \<open>None\<close> when it has
  not been constructed or has been destroyed), the count of the semaphore named
  \<open>kSemaphoreName\<close> (\<open>None\<close> when it does not exist), the integers written to standard
  output and the lines written to the error stream. The capacity of the segment is not
  part of the state: allocation inside the segment is taken to succeed.
\<close>

type_synonym prime_table = "bool list"

record os_state =
  segment :: "prime_table list option option"
  semaphore :: "nat option"
  cout :: "nat list"
  cerr :: "string list"

text \<open>
  How a process ends: it returns from \<open>main\<close> with a status, an exception escapes
  \<open>main\<close> and \<open>std::terminate\<close> is called, it indexes a vector or the array out of
  range (undefined behaviour in the reference), or it waits on the semaphore for ever.
\<close>

datatype outcome = Exit int | Terminated | Undefined | Blocked

datatype exception = Already_Exists | Runtime_Error string

text \<open>
  \<open>what()\<close>: Boost.Interprocess reports the failed creation of a name that exists with
  the system's text for \<open>EEXIST\<close>.
\<close>

fun what :: "exception \<Rightarrow> string" where
  "what Already_Exists = ''File exists''"
| "what (Runtime_Error msg) = msg"

text \<open>The effects of a worker that other processes can see, in the order they happen.\<close>

datatype effect = Vector_Write nat nat bool | Semaphore_Post | Cerr_Line string

text \<open>The macro \<open>check_argument(var, arg_idx)\<close>: the diagnostic it prints, if any.\<close>

definition check_argument :: "config \<Rightarrow> int \<times> nat \<Rightarrow> nat \<Rightarrow> string option" where
  "check_argument cfg var arg_idx =
     (if snd var = 0
      then Some (PACKAGE_NAME cfg @ '': Argument '' @ dec arg_idx @ '' is invalid.'')
      else if fst var < 0
      then Some (PACKAGE_NAME cfg @ '': Argument '' @ dec arg_idx @ '' must be non-negative.'')
      else None)"

section \<open>distributed-prime-numbers-helper.cpp: the primality test\<close>

definition PRIMALITY_TEST_COUNT :: nat where
  "PRIMALITY_TEST_COUNT = 100"

text \<open>
  \<open>mod_pow\<close> recurses on \<open>y / 2\<close>; every product is a product of
  \<open>std::uintmax_t\<close> values and wraps before the remainder is taken. The source states the
  precondition \<open>n != 0\<close> (the remainder by zero is undefined in C++; in HOL it is the
  dividend).
\<close>

function mod_pow :: "u64 \<Rightarrow> u64 \<Rightarrow> u64 \<Rightarrow> u64" where
  "mod_pow x y n =
     (if y = 0 then 1
      else let z = mod_pow x (y div 2) n
           in if y mod 2 = 0 then z * z mod n else x * z * z mod n)"
  by pat_completeness auto
termination
proof (relation "measure (\<lambda>(x, y, n). unat y)")
  show "wf (measure (\<lambda>(x :: u64, y :: u64, n :: u64). unat y))" by simp
next
  fix x y n :: u64
  assume "y \<noteq> 0"
  then have "0 < unat y" by (simp add: unat_gt_0)
  then have "unat y div 2 < unat y" by simp
  then show "((x, y div 2, n), (x, y, n)) \<in> measure (\<lambda>(x, y, n). unat y)"
    by (simp add: unat_div)
qed

declare mod_pow.simps [simp del]

text \<open>
  \<open>is_prime\<close> draws its witnesses from \<open>random_int(1, n - 1)\<close>, a thread-local random
  engine. The outcome of the \<open>i\<close>-th draw is the argument \<open>random_int i\<close>, so that a
  statement about every sequence of draws quantifies over \<open>random_int\<close>.
\<close>

function is_prime_loop :: "(nat \<Rightarrow> u64) \<Rightarrow> u64 \<Rightarrow> nat \<Rightarrow> bool" where
  "is_prime_loop random_int n i =
     (if i < PRIMALITY_TEST_COUNT
      then (let a = random_int i
            in if mod_pow a (n - 1) n \<noteq> 1 then False
               else is_prime_loop random_int n (i + 1))
      else True)"
  by pat_completeness auto
termination
  by (relation "measure (\<lambda>(random_int, n, i). PRIMALITY_TEST_COUNT - i)") auto

declare is_prime_loop.simps [simp del]

definition is_prime :: "(nat \<Rightarrow> u64) \<Rightarrow> u64 \<Rightarrow> bool" where
  "is_prime random_int n = (if n < 2 then False else is_prime_loop random_int n 0)"


section \<open>distributed-prime-numbers-helper.cpp: the worker\<close>

definition helper_show_usage :: "config \<Rightarrow> string list" where
  "helper_show_usage cfg =
     [''Usage: '' @ PACKAGE_NAME cfg @ ''-helper <range-id> <offset> <size>'',
      ''Test the integers in range [<offset>, <size>) for primality.'']"

text \<open>
  The loop \<open>for (i = 0; i < size; i++) prime_tables[range_id][i] = is_prime(offset + i)\<close>.
  \<open>random_int i k\<close> is the \<open>k\<close>-th draw while candidate \<open>offset + i\<close> is tested. The
  array and the vector are indexed without a check. When the array was not found, or
  \<open>range_id\<close> or \<open>i\<close> is out of range, the assignment writes outside the vector and the
  behaviour of the program is undefined from there on: the loop ends with \<open>Inl\<close>, holding
  the array as the writes before have left it and the effects up to and including the
  write outside the vector. A loop that completes ends with \<open>Inr\<close>.
\<close>

function helper_loop ::
  "(nat \<Rightarrow> nat \<Rightarrow> u64) \<Rightarrow> nat \<Rightarrow> u64 \<Rightarrow> nat \<Rightarrow> nat \<Rightarrow>
   prime_table list option \<Rightarrow> effect list \<Rightarrow>
   (prime_table list option \<times> effect list) + (prime_table list option \<times> effect list)" where
  "helper_loop random_int range_id offset size' i prime_tables effects =
     (if i < size'
      then (let b = is_prime (random_int i) (offset + of_nat i)
            in case prime_tables of
                 None \<Rightarrow> Inl (prime_tables, effects @ [Vector_Write range_id i b])
               | Some tables \<Rightarrow>
                   if range_id < length tables \<and> i < length (tables ! range_id)
                   then helper_loop random_int range_id offset size' (i + 1)
                          (Some (tables[range_id := (tables ! range_id)[i := b]]))
                          (effects @ [Vector_Write range_id i b])
                   else Inl (prime_tables, effects @ [Vector_Write range_id i b]))
      else Inr (prime_tables, effects))"
  by pat_completeness auto
termination
  by (relation "measure (\<lambda>(random_int, range_id, offset, size', i, prime_tables, effects). size' - i)")
    auto

declare helper_loop.simps [simp del]

text \<open>
  \<open>main\<close> of the worker: \<open>argv\<close> with the program name first. Both named resources
  are opened with \<open>open_only\<close>, which throws when the name does not exist; nothing
  catches the exception. A run that writes outside a vector ends as \<open>Undefined\<close>, with
  the effects it had until then, the write outside the vector last.
\<close>

definition helper_main ::
  "config \<Rightarrow> (nat \<Rightarrow> nat \<Rightarrow> u64) \<Rightarrow> string list \<Rightarrow> os_state \<Rightarrow>
   outcome \<times> os_state \<times> effect list" where
  "helper_main cfg random_int argv os =
     (if length argv \<noteq> 4
      then (Exit 1, os\<lparr>cerr := cerr os @ helper_show_usage cfg\<rparr>,
            map Cerr_Line (helper_show_usage cfg))
      else
        let range_id = strtoimax (argv ! 1);
            offset = strtoimax (argv ! 2);
            size' = strtoimax (argv ! 3)
        in case check_argument cfg range_id 1 of
             Some msg \<Rightarrow> (Exit 1, os\<lparr>cerr := cerr os @ [msg]\<rparr>, [Cerr_Line msg])
           | None \<Rightarrow>
         (case check_argument cfg offset 2 of
             Some msg \<Rightarrow> (Exit 1, os\<lparr>cerr := cerr os @ [msg]\<rparr>, [Cerr_Line msg])
           | None \<Rightarrow>
         (case check_argument cfg size' 3 of
             Some msg \<Rightarrow> (Exit 1, os\<lparr>cerr := cerr os @ [msg]\<rparr>, [Cerr_Line msg])
           | None \<Rightarrow>
         (case segment os of
             None \<Rightarrow> (Terminated, os, [])
           | Some prime_tables \<Rightarrow>
         (case semaphore os of
             None \<Rightarrow> (Terminated, os, [])
           | Some n_done \<Rightarrow>
         (case helper_loop random_int (nat (fst range_id)) (of_int (fst offset))
                 (nat (fst size')) 0 prime_tables [] of
             Inl (prime_tables', effects) \<Rightarrow>
               (Undefined, os\<lparr>segment := Some prime_tables'\<rparr>, effects)
           | Inr (prime_tables', effects) \<Rightarrow>
               (Exit 0,
                os\<lparr>segment := Some prime_tables', semaphore := Some (n_done + 1)\<rparr>,
                effects @ [Semaphore_Post])))))))"


section \<open>distributed-prime-numbers.cpp: the orchestrator\<close>

definition show_usage :: "config \<Rightarrow> string list" where
  "show_usage cfg =
     [''Usage: '' @ PACKAGE_NAME cfg @ '' <number of primes> <number of processes>'',
      ''Write the first <number of primes> prime numbers to standard output using an'',
      ''algorithm that executes <number of processes> tasks in parallel.'',
      [],
      ''If the specified number of processes is 0, the program uses ''
        @ dec (nat (CPU_COUNT cfg)) @ '' by default.'',
      ''Prime numbers are separated by newlines.'']"

text \<open>\<open>clean_up\<close>, registered with \<open>std::atexit\<close> in the first statement of \<open>main\<close>.\<close>

definition clean_up :: "os_state \<Rightarrow> os_state" where
  "clean_up os = os\<lparr>semaphore := None, segment := None\<rparr>"

text \<open>
  The loop that fills \<open>range_sizes\<close>, \<open>range_offsets\<close> and the prime tables.
  \<open>range_div\<close> is the pair \<open>(quot, rem)\<close>. The three vectors have \<open>process_count\<close>
  elements when the loop starts, so every index it writes is in range. The sizes and
  offsets are natural numbers: they are bounded by \<open>max_prime\<close>, the number of bytes of
  the segment, and do not reach the width of \<open>std::size_t\<close>.
\<close>

function partition_loop ::
  "nat \<times> nat \<Rightarrow> nat \<Rightarrow> nat \<Rightarrow> nat list \<times> nat list \<times> prime_table list \<Rightarrow>
   nat list \<times> nat list \<times> prime_table list" where
  "partition_loop range_div process_count i (range_sizes, range_offsets, prime_tables) =
     (if i < process_count
      then (let range_sizes' =
                  range_sizes[i := fst range_div + (if i = 0 then snd range_div else 0)];
                range_offsets' =
                  range_offsets[i := i * (range_sizes' ! i) + (if i > 0 then snd range_div else 0)];
                prime_tables' = prime_tables[i := replicate (range_sizes' ! i) False]
            in partition_loop range_div process_count (i + 1)
                 (range_sizes', range_offsets', prime_tables'))
      else (range_sizes, range_offsets, prime_tables))"
  by pat_completeness auto
termination
  by (relation "measure (\<lambda>(range_div, process_count, i, vectors). process_count - i)") auto

declare partition_loop.simps [simp del]

text \<open>
  The partitioning of \<open>[0, max_prime)\<close> for \<open>process_count\<close> workers: \<open>std::div\<close>, the
  vectors as constructed (filled with zeros, the prime tables empty), then the loop.
\<close>

definition partition :: "nat \<Rightarrow> nat \<Rightarrow> nat list \<times> nat list \<times> prime_table list" where
  "partition max_prime process_count =
     partition_loop (std_div max_prime process_count) process_count 0
       (replicate process_count 0, replicate process_count 0, replicate process_count [])"

text \<open>
  The loop that launches the workers. \<open>std::system\<close> returns when the worker has ended,
  so the workers run one after the other, each on the state the previous one left.
  \<open>random_int i\<close> are the draws of worker \<open>i\<close>. The command line carries \<open>i\<close>, the
  offset and the size in decimal (the buffer of \<open>max_command_length\<close> characters holds
  them). A worker that does not return 0 makes the orchestrator throw
  \<open>std::runtime_error\<close>.
\<close>

datatype try_result = Completed os_state | Thrown exception os_state | Aborted outcome os_state

function launch_workers ::
  "config \<Rightarrow> (nat \<Rightarrow> nat \<Rightarrow> nat \<Rightarrow> u64) \<Rightarrow> nat list \<Rightarrow> nat list \<Rightarrow> nat \<Rightarrow> nat \<Rightarrow>
   os_state \<Rightarrow> try_result" where
  "launch_workers cfg random_int range_sizes range_offsets process_count i os =
     (if i < process_count
      then (let command = [''./'' @ PACKAGE_NAME cfg @ ''-helper'', dec i,
                           dec (range_offsets ! i), dec (range_sizes ! i)]
            in case helper_main cfg (random_int i) command os of
                 (Exit status, os', effects) \<Rightarrow>
                   if status \<noteq> 0 then Thrown (Runtime_Error (PACKAGE_NAME cfg @ ''-helper'')) os'
                   else launch_workers cfg random_int range_sizes range_offsets process_count
                          (i + 1) os'
               | (Undefined, os', effects) \<Rightarrow> Aborted Undefined os'
               | (ended, os', effects) \<Rightarrow>
                   Thrown (Runtime_Error (PACKAGE_NAME cfg @ ''-helper'')) os')
      else Completed os)"
  by pat_completeness auto
termination
  by (relation "measure (\<lambda>(cfg, random_int, range_sizes, range_offsets, process_count, i, os).
        process_count - i)") auto

declare launch_workers.simps [simp del]

text \<open>The loop of \<open>n_done.wait()\<close>: a wait on the count 0 never returns.\<close>

function await_workers :: "nat \<Rightarrow> nat \<Rightarrow> os_state \<Rightarrow> os_state option" where
  "await_workers process_count i os =
     (if i < process_count
      then (case semaphore os of
              None \<Rightarrow> None
            | Some n_done \<Rightarrow>
                if n_done = 0 then None
                else await_workers process_count (i + 1) (os\<lparr>semaphore := Some (n_done - 1)\<rparr>))
      else Some os)"
  by pat_completeness auto
termination
  by (relation "measure (\<lambda>(process_count, i, os). process_count - i)") auto

declare await_workers.simps [simp del]

text \<open>
  The loops that write the primes to standard output. The inner loop walks one prime
  table; its result says whether \<open>goto exit\<close> was taken, and holds \<open>prime_count\<close> and
  the integers written so far.
\<close>

function aggregate_table ::
  "prime_table \<Rightarrow> nat \<Rightarrow> nat \<Rightarrow> int \<times> nat list \<Rightarrow> bool \<times> int \<times> nat list" where
  "aggregate_table prime_table range_offset j (prime_count, out) =
     (if j < length prime_table
      then (if prime_table ! j
            then (let out' = out @ [range_offset + j];
                      prime_count' = prime_count - 1
                  in if prime_count' = 0 then (True, prime_count', out')
                     else aggregate_table prime_table range_offset (j + 1) (prime_count', out'))
            else aggregate_table prime_table range_offset (j + 1) (prime_count, out))
      else (False, prime_count, out))"
  by pat_completeness auto
termination
  by (relation "measure (\<lambda>(prime_table, range_offset, j, acc). length prime_table - j)") auto

declare aggregate_table.simps [simp del]

function aggregate ::
  "prime_table list \<Rightarrow> nat list \<Rightarrow> nat \<Rightarrow> nat \<Rightarrow> int \<times> nat list \<Rightarrow> bool \<times> int \<times> nat list" where
  "aggregate prime_tables range_offsets process_count i (prime_count, out) =
     (if i < process_count
      then (case aggregate_table (prime_tables ! i) (range_offsets ! i) 0 (prime_count, out) of
              (True, acc) \<Rightarrow> (True, acc)
            | (False, acc) \<Rightarrow> aggregate prime_tables range_offsets process_count (i + 1) acc)
      else (False, prime_count, out))"
  by pat_completeness auto
termination
  by (relation "measure (\<lambda>(prime_tables, range_offsets, process_count, i, acc).
        process_count - i)") auto

declare aggregate.simps [simp del]

text \<open>The \<open>try\<close> block of \<open>main\<close>.\<close>

definition try_block ::
  "config \<Rightarrow> (nat \<Rightarrow> nat \<Rightarrow> nat \<Rightarrow> u64) \<Rightarrow> int \<Rightarrow> nat \<Rightarrow> nat \<times> nat \<Rightarrow> os_state \<Rightarrow> try_result" where
  "try_block cfg random_int prime_count process_count range_div os =
     (case segment os of
        Some existing \<Rightarrow> Thrown Already_Exists os
      | None \<Rightarrow>
          let (range_sizes, range_offsets, prime_tables) =
                partition_loop range_div process_count 0
                  (replicate process_count 0, replicate process_count 0,
                   replicate process_count []);
              os1 = os\<lparr>segment := Some (Some prime_tables)\<rparr>
          in (case semaphore os1 of
               Some existing \<Rightarrow> Thrown Already_Exists os1
             | None \<Rightarrow>
                 (case launch_workers cfg random_int range_sizes range_offsets process_count 0
                         (os1\<lparr>semaphore := Some 0\<rparr>) of
                    Thrown e os2 \<Rightarrow> Thrown e os2
                  | Aborted ended os2 \<Rightarrow> Aborted ended os2
                  | Completed os2 \<Rightarrow>
                      (case await_workers process_count 0 os2 of
                         None \<Rightarrow> Aborted Blocked os2
                       | Some os3 \<Rightarrow>
                           (case segment os3 of
                              Some (Some tables) \<Rightarrow>
                                let (exited, remaining, out) =
                                      aggregate tables range_offsets process_count 0
                                        (prime_count, [])
                                in Completed (os3\<lparr>cout := cout os3 @ out,
                                                  segment := Some None\<rparr>)
                            | missing \<Rightarrow> Aborted Undefined os3)))))"

text \<open>
  \<open>main\<close> up to its return. \<open>rosser\<close> is the bound
  \<open>prime_count * (log(prime_count) + log(log(prime_count)))\<close> as converted to
  \<open>std::uintmax_t\<close>: floating point is not modelled, the function is a parameter. With
  \<open>CPU_COUNT < 1\<close> the default process count is not positive and \<open>std::div\<close> or the
  construction of the vectors is undefined.
\<close>

definition main_body ::
  "config \<Rightarrow> (int \<Rightarrow> nat) \<Rightarrow> (nat \<Rightarrow> nat \<Rightarrow> nat \<Rightarrow> u64) \<Rightarrow> string list \<Rightarrow> os_state \<Rightarrow>
   outcome \<times> os_state" where
  "main_body cfg rosser random_int argv os =
     (if length argv \<noteq> 3
      then (Exit 1, os\<lparr>cerr := cerr os @ show_usage cfg\<rparr>)
      else
        let prime_count = strtoimax (argv ! 1);
            process_count = strtoimax (argv ! 2)
        in case check_argument cfg prime_count 1 of
             Some msg \<Rightarrow> (Exit 1, os\<lparr>cerr := cerr os @ [msg]\<rparr>)
           | None \<Rightarrow>
         (case check_argument cfg process_count 2 of
             Some msg \<Rightarrow> (Exit 1, os\<lparr>cerr := cerr os @ [msg]\<rparr>)
           | None \<Rightarrow>
         if fst prime_count = 0 then (Exit 0, os)
         else
           let process_count' =
                 (if fst process_count = 0 then min (CPU_COUNT cfg) (fst prime_count)
                  else fst process_count)
           in if process_count' > fst prime_count
              then (Exit 1,
                    os\<lparr>cerr := cerr os @
                      [PACKAGE_NAME cfg @
                       '': The number of processes must not exceed the number of primes.'']\<rparr>)
              else if process_count' < 1 then (Undefined, os)
              else
                let max_prime = (if fst prime_count < 6 then 12 else rosser (fst prime_count));
                    range_div = std_div max_prime (nat process_count')
                in (case try_block cfg random_int (fst prime_count) (nat process_count')
                           range_div os of
                      Completed os' \<Rightarrow> (Exit 0, os')
                    | Thrown e os' \<Rightarrow>
                        (Exit 1,
                         os'\<lparr>cerr := cerr os' @ [PACKAGE_NAME cfg @ '': error: '' @ what e]\<rparr>)
                    | Aborted ended os' \<Rightarrow> (ended, os'))))"

text \<open>
  The whole run: when \<open>main\<close> returns, the handler registered with \<open>std::atexit\<close>
  runs.
\<close>

definition main ::
  "config \<Rightarrow> (int \<Rightarrow> nat) \<Rightarrow> (nat \<Rightarrow> nat \<Rightarrow> nat \<Rightarrow> u64) \<Rightarrow> string list \<Rightarrow> os_state \<Rightarrow>
   outcome \<times> os_state" where
  "main cfg rosser random_int argv os =
     (case main_body cfg rosser random_int argv os of
        (Exit status, os') \<Rightarrow> (Exit status, clean_up os')
      | (ended, os') \<Rightarrow> (ended, os'))"

section \<open>Notions the statements use\<close>

text \<open>What the claims call a genuinely prime number.\<close>

definition genuinely_prime :: "nat \<Rightarrow> bool" where
  "genuinely_prime p \<longleftrightarrow> 2 \<le> p \<and> {d. d dvd p} = {1, p}"

text \<open>Trial division from \<open>d\<close> up to the square root, to establish primality.\<close>

function no_divisor_from :: "nat \<Rightarrow> nat \<Rightarrow> bool" where
  "no_divisor_from d p =
     (if p < d * d then True
      else if p mod d = 0 then False
      else no_divisor_from (d + 1) p)"
  by pat_completeness auto
termination
  by (relation "measure (\<lambda>(d, p). p + 1 - d * d)") auto

declare no_divisor_from.simps [simp del]

text \<open>
  The integers of one partition whose entry is true, in ascending index order, and those
  of all partitions in ascending partition order: what the aggregation is to write, cut
  off after \<open>prime_count\<close> integers.
\<close>

definition true_entries :: "prime_table \<Rightarrow> nat \<Rightarrow> nat list" where
  "true_entries prime_table range_offset =
     map (\<lambda>j. range_offset + j) (filter (\<lambda>j. prime_table ! j) [0..<length prime_table])"

definition all_true_entries :: "prime_table list \<Rightarrow> nat list \<Rightarrow> nat \<Rightarrow> nat list" where
  "all_true_entries prime_tables range_offsets process_count =
     concat (map (\<lambda>i. true_entries (prime_tables ! i) (range_offsets ! i)) [0..<process_count])"

text \<open>The half-open range of integers of partition \<open>i\<close>.\<close>

definition range_of :: "nat list \<Rightarrow> nat list \<Rightarrow> nat \<Rightarrow> nat set" where
  "range_of range_offsets range_sizes i =
     {range_offsets ! i ..< range_offsets ! i + range_sizes ! i}"

text \<open>The constant function: a source of draws, or a bound, that ignores its argument.\<close>

definition always :: "'a \<Rightarrow> 'b \<Rightarrow> 'a" where
  "always x y = x"

text \<open>Vector \<open>q\<close> of the shared result store, when the store holds one.\<close>

definition vector_at :: "os_state \<Rightarrow> nat \<Rightarrow> prime_table option" where
  "vector_at os q =
     (case segment os of
        Some (Some tables) \<Rightarrow> if q < length tables then Some (tables ! q) else None
      | missing \<Rightarrow> None)"

text \<open>An argument that \<open>check_argument\<close> lets pass: converted, and not negative.\<close>

definition validated :: "string \<Rightarrow> bool" where
  "validated arg \<longleftrightarrow> snd (strtoimax arg) \<noteq> 0 \<and> 0 \<le> fst (strtoimax arg)"

text \<open>
  An argument that is a decimal number from its first character to its last
  (\<open>std::strtoimax\<close> converts all of it), and an argument that holds no number
  (\<open>std::strtoimax\<close> converts nothing). An argument that starts with a number and goes
  on with other characters, such as \<open>5abc\<close>, is neither.
\<close>

definition numeric :: "string \<Rightarrow> bool" where
  "numeric arg \<longleftrightarrow> arg \<noteq> [] \<and> snd (strtoimax arg) = length arg"

definition no_number :: "string \<Rightarrow> bool" where
  "no_number arg \<longleftrightarrow> snd (strtoimax arg) = 0"

text \<open>
  The runs of the orchestrator whose arguments fail validation: the wrong number of
  arguments or, each argument being numeric or holding no number, an argument that is
  not numeric, a negative prime count or process count, or a non-zero prime count
  exceeded by the process count (after 0 has been replaced by the default).
\<close>

definition fails_validation :: "config \<Rightarrow> string list \<Rightarrow> bool" where
  "fails_validation cfg argv \<longleftrightarrow>
     length argv \<noteq> 3 \<or>
     ((numeric (argv ! 1) \<or> no_number (argv ! 1)) \<and>
      (numeric (argv ! 2) \<or> no_number (argv ! 2)) \<and>
      (no_number (argv ! 1) \<or> no_number (argv ! 2) \<or>
       fst (strtoimax (argv ! 1)) < 0 \<or> fst (strtoimax (argv ! 2)) < 0 \<or>
       (fst (strtoimax (argv ! 1)) \<noteq> 0 \<and>
        fst (strtoimax (argv ! 1)) <
          (if fst (strtoimax (argv ! 2)) = 0
           then min (CPU_COUNT cfg) (fst (strtoimax (argv ! 1)))
           else fst (strtoimax (argv ! 2))))))"

text \<open>
  The writes of a worker with partition id \<open>p\<close> and size \<open>n\<close> are in range when the
  store holds a vector \<open>p\<close> with at least \<open>n\<close> entries; a worker with size 0, or one
  that finds no store, writes nothing.
\<close>

definition in_range :: "os_state \<Rightarrow> nat \<Rightarrow> nat \<Rightarrow> bool" where
  "in_range os p n =
     (case vector_at os p of
        Some v \<Rightarrow> n \<le> length v
      | None \<Rightarrow> n = 0 \<or> segment os = None)"

text \<open>
  An effect that modifies nothing but vector \<open>p\<close> of the store as it is in \<open>os\<close>: a
  write to one of the entries of vector \<open>p\<close>, or no write at all.
\<close>

definition within_vector :: "os_state \<Rightarrow> nat \<Rightarrow> effect \<Rightarrow> bool" where
  "within_vector os p e =
     (case e of
        Vector_Write q i b \<Rightarrow>
          q = p \<and> (case vector_at os p of Some v \<Rightarrow> i < length v | None \<Rightarrow> False)
      | Semaphore_Post \<Rightarrow> True
      | Cerr_Line line \<Rightarrow> True)"

text \<open>A configuration for the concrete runs: the name of the package and four processors.\<close>

definition a_config :: config where
  "a_config = \<lparr>PACKAGE_NAME = ''distributed-prime-numbers'', CPU_COUNT = 4\<rparr>"

text \<open>
  Draws for a run on small candidates: worker 0 draws 1 for its first three candidates
  (the only witness in \<open>[1, n - 1]\<close> for \<open>n = 2\<close>), every other draw is 2.
\<close>

definition small_draws :: "nat \<Rightarrow> nat \<Rightarrow> nat \<Rightarrow> u64" where
  "small_draws i j k = (if i = 0 \<and> j < 3 then 1 else 2)"

section \<open>Rounding a size up to the alignment boundary\<close>

lemma and_not_511_word: "(x :: u64) AND NOT (mask 9) = push_bit 9 (drop_bit 9 x)"
  by (rule bit_eqI) (auto simp add: bit_simps)

lemma unat_and_minus_512: "unat ((x :: u64) AND - 512) = unat x - unat x mod 512"
proof -
  have m: "- 512 = NOT (mask 9 :: u64)"
    by (simp add: mask_eq_exp_minus_1)
  have lt: "unat x < 2 ^ 64"
    using unsigned_less [of x] by simp
  have "unat (push_bit 9 (drop_bit 9 x)) = (unat x div 512 * 512) mod 2 ^ 64"
    by (simp add: push_bit_eq_mult unat_word_ariths unat_drop_bit_eq drop_bit_eq_div
        mod_mult_left_eq)
  also have "\<dots> = unat x div 512 * 512"
    using lt by (intro mod_less) arith
  finally show ?thesis
    unfolding m and_not_511_word by (simp add: minus_mod_eq_div_mult)
qed

lemma unat_align_no_wrap:
  assumes "unat n \<le> SIZE_MAX - 511"
  shows "unat (align kAlignment n) = (unat n + 511) - (unat n + 511) mod 512"
proof -
  have "unat (n + 511) = unat n + 511"
    using assms by (simp add: unat_word_ariths SIZE_MAX_def)
  then show ?thesis
    by (simp add: align_def kAlignment_def unat_and_minus_512)
qed

lemma unat_add_511_wrap:
  assumes "SIZE_MAX - 511 < unat (n :: u64)"
  shows "unat (n + 511) = unat n + 511 - 2 ^ 64"
proof -
  have "unat n < 2 ^ 64"
    using unsigned_less [of n] by simp
  then show ?thesis
    using assms by (simp add: unat_plus_if' SIZE_MAX_def)
qed

lemma align_wrap:
  assumes "SIZE_MAX - 511 < unat n"
  shows "align kAlignment n = 0"
proof -
  have lt: "unat n < 2 ^ 64"
    using unsigned_less [of n] by simp
  have "unat (n + 511) < 512"
    using unat_add_511_wrap [OF assms] lt by simp
  then have "unat (align kAlignment n) = 0"
    by (simp add: align_def kAlignment_def unat_and_minus_512)
  then show ?thesis
    using unsigned_eq_0_iff by blast
qed

lemma round_up_512_least:
  fixes k :: nat
  shows "512 dvd (k + 511 - (k + 511) mod 512)"
    and "k \<le> k + 511 - (k + 511) mod 512"
    and "512 dvd m \<Longrightarrow> k \<le> m \<Longrightarrow> k + 511 - (k + 511) mod 512 \<le> m"
proof -
  show "512 dvd (k + 511 - (k + 511) mod 512)"
    by (simp add: minus_mod_eq_div_mult)
  have "(k + 511) mod 512 < 512" by simp
  then show "k \<le> k + 511 - (k + 511) mod 512" by arith
  assume "512 dvd m" and "k \<le> m"
  then obtain c where c: "m = 512 * c" by (auto simp: dvd_def)
  have "(k + 511) div 512 \<le> c"
    using \<open>k \<le> m\<close> c by (simp add: div_le_mono [of "k + 511" "512 * c + 511" 512, simplified])
  then show "k + 511 - (k + 511) mod 512 \<le> m"
    using c by (simp add: minus_mod_eq_div_mult)
qed

text \<open>
  C10. For every size \<open>n\<close> with \<open>n \<le> SIZE_MAX - 511\<close>, \<open>align<512>(n)\<close> is the least
  multiple of 512 that is greater than or equal to \<open>n\<close>. For the remaining \<open>n\<close>, within
  511 of the largest size, the addition \<open>n + 511\<close> wraps modulo \<open>2 ^ 64\<close> and the result
  is a multiple of 512 smaller than \<open>n\<close>, against the documented postcondition that the
  result is never less than \<open>n\<close>.
\<close>

theorem align_512_least_multiple_or_wraps:
  "(unat n \<le> SIZE_MAX - 511 \<longrightarrow>
      512 dvd unat (align kAlignment n) \<and> unat n \<le> unat (align kAlignment n) \<and>
      (\<forall>m. 512 dvd m \<and> unat n \<le> m \<longrightarrow> unat (align kAlignment n) \<le> m)) \<and>
   (SIZE_MAX - 511 < unat n \<longrightarrow>
      2 ^ 64 \<le> unat n + 511 \<and>
      unat (n + (kAlignment - 1)) = unat n + 511 - 2 ^ 64 \<and>
      512 dvd unat (align kAlignment n) \<and> unat (align kAlignment n) < unat n)"
proof (intro conjI impI allI)
  assume a: "unat n \<le> SIZE_MAX - 511"
  show "512 dvd unat (align kAlignment n)"
    unfolding unat_align_no_wrap [OF a] by (rule round_up_512_least(1))
  show "unat n \<le> unat (align kAlignment n)"
    unfolding unat_align_no_wrap [OF a] by (rule round_up_512_least(2))
  fix m
  assume "512 dvd m \<and> unat n \<le> m"
  then show "unat (align kAlignment n) \<le> m"
    unfolding unat_align_no_wrap [OF a] by (simp add: round_up_512_least(3))
next
  assume b: "SIZE_MAX - 511 < unat n"
  show "2 ^ 64 \<le> unat n + 511"
    using b by (simp add: SIZE_MAX_def)
  show "unat (n + (kAlignment - 1)) = unat n + 511 - 2 ^ 64"
    using unat_add_511_wrap [OF b] by (simp add: kAlignment_def)
  show "512 dvd unat (align kAlignment n)"
    by (simp add: align_wrap [OF b])
  show "unat (align kAlignment n) < unat n"
    using b by (simp add: align_wrap [OF b])
qed

theorem align_512_least_multiple_or_wraps_witness:
  "unat (513 :: u64) \<le> SIZE_MAX - 511 \<and> unat (align kAlignment 513) = 1024 \<and>
   512 dvd unat (align kAlignment 513) \<and>
   SIZE_MAX - 511 < unat (18446744073709551615 :: u64) \<and>
   align kAlignment 18446744073709551615 = 0 \<and>
   unat (align kAlignment 18446744073709551615) < unat (18446744073709551615 :: u64)"
  using align_512_least_multiple_or_wraps [of 513]
    align_512_least_multiple_or_wraps [of 18446744073709551615]
  by (simp add: SIZE_MAX_def align_def kAlignment_def)

section \<open>Modular exponentiation and the Fermat test\<close>

text \<open>
  Where the products fit the width, \<open>mod_pow\<close> is the modular power: for a modulus
  \<open>n \<ge> 2\<close> and a base \<open>x \<ge> 1\<close> with \<open>x * (n - 1) * (n - 1) < 2 ^ 64\<close>.
\<close>

lemma products_fit:
  fixes a b m W :: nat
  assumes a: "1 \<le> a" and b: "b \<le> m" and W: "a * m * m < W"
  shows "b * b < W" and "a * b < W" and "a * b * b < W"
proof -
  have bb: "b * b \<le> m * m" by (rule mult_le_mono [OF b b])
  have le: "a * (b * b) \<le> a * (m * m)" by (rule mult_le_mono2 [OF bb])
  from le W show abb: "a * b * b < W" unfolding mult.assoc by (rule le_less_trans)
  have "1 * (b * b) \<le> a * (b * b)" by (rule mult_le_mono1 [OF a])
  then have "b * b \<le> a * b * b" by (simp add: mult.assoc)
  then show "b * b < W" using abb by (rule le_less_trans)
  show "a * b < W"
  proof (cases b)
    case 0
    then show ?thesis using W by simp
  next
    case (Suc k)
    then have "a * b * 1 \<le> a * b * b" by (intro mult_le_mono2) simp
    then have "a * b \<le> a * b * b" by simp
    then show ?thesis using abb by (rule le_less_trans)
  qed
qed

lemma mod_pow_no_overflow:
  assumes n: "2 \<le> unat n" and x: "1 \<le> unat x"
    and fit: "unat x * (unat n - 1) * (unat n - 1) < 2 ^ 64"
  shows "unat (mod_pow x y n) = unat x ^ unat y mod unat n"
proof (induction "unat y" arbitrary: y rule: less_induct)
  case less
  show ?case
  proof (cases "y = 0")
    case True
    then show ?thesis using n by (simp add: mod_pow.simps [of x 0 n])
  next
    case False
    define z where "z = mod_pow x (y div 2) n"
    have y0: "0 < unat y" using False by (simp add: unat_gt_0)
    have "unat (y div 2) < unat y" using y0 by (simp add: unat_div)
    then have z: "unat z = unat x ^ (unat y div 2) mod unat n"
      using less [of "y div 2"] by (simp add: z_def unat_div)
    have zle: "unat z < unat n" using z n by simp
    then have zn: "unat z \<le> unat n - 1" by simp
    note f = products_fit [OF x zn fit]
    have uzz: "unat (z * z) = unat z * unat z"
      using f(1) unat_mult_lem [of z z] by simp
    have uxz: "unat (x * z) = unat x * unat z"
      using f(2) unat_mult_lem [of x z] by simp
    have uxzz: "unat (x * z * z) = unat x * unat z * unat z"
      using f(3) unat_mult_lem [of "x * z" z] by (simp add: uxz)
    have split: "unat y = 2 * (unat y div 2) + unat y mod 2" by simp
    have ymod: "unat (y mod 2) = unat y mod 2" by (simp add: unat_mod)
    show ?thesis
    proof (cases "y mod 2 = 0")
      case True
      then have ev: "unat y mod 2 = 0" using ymod by simp
      have "unat (mod_pow x y n) = unat z * unat z mod unat n"
        using False True by (simp add: mod_pow.simps [of x y n] z_def [symmetric] Let_def unat_mod uzz)
      also have "\<dots> = (unat x ^ (unat y div 2)) * (unat x ^ (unat y div 2)) mod unat n"
        unfolding z by (simp add: mod_mult_eq)
      also have "\<dots> = unat x ^ (2 * (unat y div 2)) mod unat n"
        by (simp add: power_add [symmetric] mult_2)
      finally show ?thesis using ev split by simp
    next
      case odd: False
      then have "unat y mod 2 \<noteq> 0" using ymod by (metis unsigned_eq_0_iff)
      then have od: "unat y mod 2 = 1" by presburger
      have "unat (mod_pow x y n) = unat x * unat z * unat z mod unat n"
        using False odd by (simp add: mod_pow.simps [of x y n] z_def [symmetric] Let_def unat_mod uxzz)
      also have "\<dots> = unat x * ((unat x ^ (unat y div 2)) * (unat x ^ (unat y div 2)) mod unat n) mod unat n"
        unfolding z mult.assoc by (metis mod_mult_eq mod_mult_right_eq)
      also have "\<dots> = unat x ^ (2 * (unat y div 2) + 1) mod unat n"
        by (simp add: power_add [symmetric] mult_2 mod_mult_right_eq)
      finally have "unat (mod_pow x y n) = unat x ^ (2 * (unat y div 2) + 1) mod unat n" .
      moreover have "unat y = 2 * (unat y div 2) + 1" using od split by simp
      ultimately show ?thesis by metis
    qed
  qed
qed

lemma no_divisor_from_sound:
  "no_divisor_from d p \<Longrightarrow> 0 < d \<Longrightarrow> d \<le> k \<Longrightarrow> k * k \<le> p \<Longrightarrow> \<not> k dvd p"
proof (induction d p rule: no_divisor_from.induct)
  case (1 d p)
  have dd: "d * d \<le> p"
    using "1.prems"(2,3,4) mult_le_mono [of d k d k] by linarith
  then have nz: "p mod d \<noteq> 0" and rest: "no_divisor_from (d + 1) p"
    using "1.prems"(1) by (auto simp: no_divisor_from.simps [of d p] split: if_splits)
  show ?case
  proof (cases "k = d")
    case True
    then show ?thesis using nz by (simp add: dvd_eq_mod_eq_0)
  next
    case False
    then have "d + 1 \<le> k" using "1.prems"(3) by simp
    then show ?thesis
      using "1.IH" dd nz rest "1.prems"(4) by simp
  qed
qed

lemma genuinely_prime_by_trial_division:
  assumes p: "2 \<le> p" and nd: "no_divisor_from 2 p"
  shows "genuinely_prime p"
proof -
  have "d = 1 \<or> d = p" if "d dvd p" for d
  proof (rule ccontr)
    assume neg: "\<not> (d = 1 \<or> d = p)"
    from that obtain e where e: "p = d * e" by (auto simp: dvd_def)
    have d0: "d \<noteq> 0" using e p by (cases d) auto
    have e0: "e \<noteq> 0" using e p by (cases e) auto
    have e1: "e \<noteq> 1" using e neg by auto
    have d2: "2 \<le> d" and e2: "2 \<le> e" using d0 e0 e1 neg by auto
    have "e dvd p" using e by simp
    have "\<not> d * d \<le> p"
      using no_divisor_from_sound [OF nd _ d2] that by auto
    moreover have "\<not> e * e \<le> p"
      using no_divisor_from_sound [OF nd _ e2] \<open>e dvd p\<close> by auto
    ultimately have "d * e < d * d" "d * e < e * e" using e by auto
    then have "e < d" "d < e" using d0 e0 by auto
    then show False by simp
  qed
  then have "{d. d dvd p} = {1, p}" by auto
  then show ?thesis using p by (simp add: genuinely_prime_def)
qed

lemma prime_2642287: "genuinely_prime 2642287"
  by (rule genuinely_prime_by_trial_division) (simp_all add: no_divisor_from.simps)


lemma is_prime_below_2: "n < 2 \<Longrightarrow> \<not> is_prime random_int n"
  by (simp add: is_prime_def)

text \<open>
  C1. \<open>mod_pow(base, exponent, modulus)\<close> is to return \<open>base ^ exponent mod modulus\<close>
  for every modulus other than 0, with no intermediate squaring overflowing the unsigned
  width. The products \<open>z * z\<close> and \<open>x * z * z\<close> are taken at the native width before
  the remainder, and the base is never reduced. At base \<open>2 ^ 32\<close>, exponent 2 and
  modulus \<open>2 ^ 64 - 1\<close> the recursive call returns \<open>2 ^ 32\<close>, its square \<open>2 ^ 64\<close>
  wraps to 0 and \<open>mod_pow\<close> returns 0, where \<open>base ^ exponent mod modulus\<close> is 1. At
  base \<open>2 ^ 63\<close>, exponent 3 and modulus 3 the recursive call returns 2, the product
  \<open>x * z\<close> wraps to 0 and \<open>mod_pow\<close> returns 0, where the power is 2 modulo 3.
\<close>

theorem mod_pow_wraps_at_base_2_32:
  "mod_pow 4294967296 2 18446744073709551615 = 0 \<and>
   (4294967296 :: nat) ^ 2 mod 18446744073709551615 = 1 \<and>
   mod_pow 4294967296 1 18446744073709551615 = 4294967296 \<and>
   2 ^ 64 \<le> unat (4294967296 :: u64) * unat (4294967296 :: u64) \<and>
   mod_pow 9223372036854775808 3 3 = 0 \<and>
   (9223372036854775808 :: nat) ^ 3 mod 3 = 2 \<and>
   mod_pow 9223372036854775808 1 3 = 2 \<and>
   2 ^ 64 \<le> unat (9223372036854775808 :: u64) * unat (2 :: u64)"
  by (simp add: mod_pow.simps)

text \<open>
  C5. \<open>is_prime(n)\<close> is false for every \<open>n < 2\<close> (lemma \<open>is_prime_below_2\<close>), and is
  to be true for every prime \<open>n\<close> whatever witnesses are drawn from \<open>[1, n - 1]\<close>. The
  overflow in \<open>mod_pow\<close> breaks the second part: 2642287 is prime, the witness 2642286
  lies in \<open>[1, n - 1]\<close>, \<open>mod_pow(2642286, 2642286, 2642287)\<close> is 931035 and not 1, and
  \<open>is_prime(2642287)\<close> is false when that witness is drawn.
\<close>

theorem is_prime_rejects_prime_2642287:
  "genuinely_prime 2642287 \<and> (1 :: u64) \<le> 2642286 \<and> (2642286 :: u64) \<le> 2642287 - 1 \<and>
   mod_pow 2642286 (2642287 - 1) 2642287 = 931035 \<and>
   \<not> is_prime (always 2642286) 2642287"
proof -
  have "mod_pow 2642286 (2642287 - 1) 2642287 = 931035"
    by code_simp
  moreover have "\<not> is_prime (always 2642286) 2642287"
    by code_simp
  ultimately show ?thesis
    using prime_2642287 by simp
qed

section \<open>The partitioning of the range\<close>

lemma partition_loop_closed_form:
  "length range_sizes = process_count \<Longrightarrow> length range_offsets = process_count \<Longrightarrow>
   length prime_tables = process_count \<Longrightarrow>
   partition_loop range_div process_count i (range_sizes, range_offsets, prime_tables) =
     (map (\<lambda>k. if i \<le> k then fst range_div + (if k = 0 then snd range_div else 0)
                else range_sizes ! k) [0..<process_count],
      map (\<lambda>k. if i \<le> k
                then k * (fst range_div + (if k = 0 then snd range_div else 0))
                     + (if 0 < k then snd range_div else 0)
                else range_offsets ! k) [0..<process_count],
      map (\<lambda>k. if i \<le> k
                then replicate (fst range_div + (if k = 0 then snd range_div else 0)) False
                else prime_tables ! k) [0..<process_count])"
proof (induction range_div process_count i "(range_sizes, range_offsets, prime_tables)"
    arbitrary: range_sizes range_offsets prime_tables rule: partition_loop.induct)
  case (1 range_div process_count i range_sizes range_offsets prime_tables)
  show ?case
  proof (cases "i < process_count")
    case False
    then show ?thesis
      using "1.prems"
      by (auto simp add: partition_loop.simps [of range_div process_count i]
          intro!: nth_equalityI)
  next
    case True
    define s where "s = range_sizes[i := fst range_div + (if i = 0 then snd range_div else 0)]"
    define o' where "o' = range_offsets[i := i * (s ! i) + (if i > 0 then snd range_div else 0)]"
    define t where "t = prime_tables[i := replicate (s ! i) False]"
    have len: "length s = process_count" "length o' = process_count" "length t = process_count"
      using "1.prems" by (simp_all add: s_def o'_def t_def)
    have si: "s ! i = fst range_div + (if i = 0 then snd range_div else 0)"
      using True "1.prems" by (simp add: s_def)
    have step: "partition_loop range_div process_count i (range_sizes, range_offsets, prime_tables)
        = partition_loop range_div process_count (i + 1) (s, o', t)"
      using True by (simp add: partition_loop.simps [of range_div process_count i] s_def o'_def t_def Let_def)
    have IH: "partition_loop range_div process_count (i + 1) (s, o', t) =
     (map (\<lambda>k. if i + 1 \<le> k then fst range_div + (if k = 0 then snd range_div else 0)
                else s ! k) [0..<process_count],
      map (\<lambda>k. if i + 1 \<le> k
                then k * (fst range_div + (if k = 0 then snd range_div else 0))
                     + (if 0 < k then snd range_div else 0)
                else o' ! k) [0..<process_count],
      map (\<lambda>k. if i + 1 \<le> k
                then replicate (fst range_div + (if k = 0 then snd range_div else 0)) False
                else t ! k) [0..<process_count])"
      using "1.hyps" [OF True s_def o'_def t_def len] .
    have a: "(if i + 1 \<le> k then fst range_div + (if k = 0 then snd range_div else 0) else s ! k)
        = (if i \<le> k then fst range_div + (if k = 0 then snd range_div else 0) else range_sizes ! k)"
      if "k < process_count" for k
      using that "1.prems" by (cases "k = i") (auto simp: s_def)
    have b: "(if i + 1 \<le> k
                then k * (fst range_div + (if k = 0 then snd range_div else 0))
                     + (if 0 < k then snd range_div else 0)
                else o' ! k)
        = (if i \<le> k
                then k * (fst range_div + (if k = 0 then snd range_div else 0))
                     + (if 0 < k then snd range_div else 0)
                else range_offsets ! k)"
      if "k < process_count" for k
      using that "1.prems" si by (cases "k = i") (auto simp: o'_def)
    have c: "(if i + 1 \<le> k
                then replicate (fst range_div + (if k = 0 then snd range_div else 0)) False
                else t ! k)
        = (if i \<le> k
                then replicate (fst range_div + (if k = 0 then snd range_div else 0)) False
                else prime_tables ! k)"
      if "k < process_count" for k
      using that "1.prems" si by (cases "k = i") (auto simp: t_def)
    show ?thesis
      unfolding step IH using a b c by (auto intro!: map_cong)
  qed
qed


lemma partition_closed_form:
  "partition max_prime process_count =
     (map (\<lambda>k. max_prime div process_count + (if k = 0 then max_prime mod process_count else 0))
        [0..<process_count],
      map (\<lambda>k. k * (max_prime div process_count
                       + (if k = 0 then max_prime mod process_count else 0))
                + (if 0 < k then max_prime mod process_count else 0)) [0..<process_count],
      map (\<lambda>k. replicate (max_prime div process_count
                       + (if k = 0 then max_prime mod process_count else 0)) False)
        [0..<process_count])"
  by (simp add: partition_def std_div_def partition_loop_closed_form)

lemma partition_nth:
  assumes "partition max_prime process_count = (range_sizes, range_offsets, prime_tables)"
    and "k < process_count"
  shows "range_sizes ! k = (if k = 0 then max_prime div process_count + max_prime mod process_count
                            else max_prime div process_count)"
    and "range_offsets ! k = (if k = 0 then 0
                              else k * (max_prime div process_count) + max_prime mod process_count)"
    and "range_offsets ! k + range_sizes ! k =
           (k + 1) * (max_prime div process_count) + max_prime mod process_count"
    and "prime_tables ! k = replicate (range_sizes ! k) False"
  using assms unfolding partition_closed_form by auto

lemma partition_length:
  assumes "partition max_prime process_count = (range_sizes, range_offsets, prime_tables)"
  shows "length range_sizes = process_count" and "length range_offsets = process_count"
    and "length prime_tables = process_count"
  using assms unfolding partition_closed_form by auto

lemma partition_sum_sizes:
  assumes "partition max_prime process_count = (range_sizes, range_offsets, prime_tables)"
    and "1 \<le> process_count"
  shows "sum_list range_sizes = max_prime"
proof -
  let ?q = "max_prime div process_count" and ?r = "max_prime mod process_count"
  have "range_sizes = map (\<lambda>k. ?q + (if k = 0 then ?r else 0)) [0..<process_count]"
    using assms(1) unfolding partition_closed_form by simp
  then have "sum_list range_sizes = (\<Sum>k = 0..<process_count. ?q + (if k = 0 then ?r else 0))"
    by (simp add: interv_sum_list_conv_sum_set_nat)
  also have "\<dots> = process_count * ?q + ?r"
    using assms(2) by (simp add: sum.distrib)
  also have "\<dots> = max_prime" by simp
  finally show ?thesis .
qed



lemma partition_ordered:
  assumes p: "partition max_prime process_count = (range_sizes, range_offsets, prime_tables)"
    and ij: "i < j" "j < process_count"
  shows "range_offsets ! i + range_sizes ! i \<le> range_offsets ! j"
proof -
  let ?q = "max_prime div process_count" and ?r = "max_prime mod process_count"
  have "range_offsets ! i + range_sizes ! i = (i + 1) * ?q + ?r"
    using partition_nth(3) [OF p] ij by simp
  moreover have "range_offsets ! j = j * ?q + ?r"
    using partition_nth(2) [OF p ij(2)] ij by simp
  moreover have "(i + 1) * ?q \<le> j * ?q"
    using ij by (intro mult_le_mono1) simp
  ultimately show ?thesis by simp
qed

lemma partition_union:
  assumes p: "partition max_prime process_count = (range_sizes, range_offsets, prime_tables)"
    and w: "1 \<le> process_count" "process_count \<le> max_prime"
  shows "(\<Union>i<process_count. range_of range_offsets range_sizes i) = {0..<max_prime}"
proof (intro set_eqI iffI)
  let ?q = "max_prime div process_count" and ?r = "max_prime mod process_count"
  have q: "0 < ?q" using w by (simp add: div_greater_zero_iff)
  have total: "process_count * ?q + ?r = max_prime" by simp
  fix x
  {
    assume "x \<in> (\<Union>i<process_count. range_of range_offsets range_sizes i)"
    then obtain i where i: "i < process_count" and x: "x \<in> range_of range_offsets range_sizes i"
      by auto
    have "x < (i + 1) * ?q + ?r"
      using x partition_nth(3) [OF p i] by (simp add: range_of_def)
    moreover have "(i + 1) * ?q \<le> process_count * ?q"
      using i by (intro mult_le_mono1) simp
    ultimately have "x < max_prime" using total by linarith
    then show "x \<in> {0..<max_prime}" by simp
  }
  {
    assume "x \<in> {0..<max_prime}"
    then have xb: "x < process_count * ?q + ?r" using total by simp
    show "x \<in> (\<Union>i<process_count. range_of range_offsets range_sizes i)"
    proof (cases "x < ?q + ?r")
      case True
      then have "x \<in> range_of range_offsets range_sizes 0"
        using partition_nth(1,2) [OF p, of 0] w by (simp add: range_of_def)
      then show ?thesis using w by (auto intro: bexI [of _ 0])
    next
      case False
      define k where "k = (x - ?r) div ?q"
      have xr: "?q \<le> x - ?r" using False by simp
      then have k1: "1 \<le> k" using q by (simp add: k_def div_greater_zero_iff Suc_leI)
      have "x - ?r < process_count * ?q" using xb False by linarith
      then have kw: "k < process_count"
        using q by (simp add: k_def less_mult_imp_div_less mult.commute)
      have lo: "k * ?q \<le> x - ?r" by (simp add: k_def)
      have hi: "x - ?r < (k + 1) * ?q"
        using q dividend_less_times_div [of ?q "x - ?r"] by (simp add: k_def mult.commute)
      have "range_offsets ! k = k * ?q + ?r"
        using partition_nth(2) [OF p kw] k1 by simp
      moreover have "range_offsets ! k + range_sizes ! k = (k + 1) * ?q + ?r"
        using partition_nth(3) [OF p kw] .
      ultimately have "x \<in> range_of range_offsets range_sizes k"
        using lo hi False unfolding range_of_def by (simp del: mult_Suc add: not_less) linarith
      then show ?thesis using kw by auto
    qed
  }
qed

text \<open>
  Every value the loop computes (the sizes, the products \<open>i * range_sizes[i]\<close>, the
  ends of the ranges) is at most \<open>max_prime\<close>: for a bound within the operand type of
  \<open>std::div\<close> no operation of the loop on \<open>std::size_t\<close> or \<open>std::uintmax_t\<close> wraps.
\<close>

lemma partition_values_bounded:
  assumes p: "partition max_prime process_count = (range_sizes, range_offsets, prime_tables)"
    and i: "i < process_count"
  shows "range_sizes ! i \<le> max_prime" and "i * range_sizes ! i \<le> max_prime"
    and "range_offsets ! i + range_sizes ! i \<le> max_prime"
proof -
  let ?q = "max_prime div process_count" and ?r = "max_prime mod process_count"
  have total: "process_count * ?q + ?r = max_prime" by simp
  have le: "(i + 1) * ?q \<le> process_count * ?q"
    using i by (intro mult_le_mono1) simp
  show end_le: "range_offsets ! i + range_sizes ! i \<le> max_prime"
    using partition_nth(3) [OF p i] le total by linarith
  then show "range_sizes ! i \<le> max_prime" by simp
  have "i * range_sizes ! i \<le> range_offsets ! i"
    using partition_nth(1,2) [OF p i] by simp
  then show "i * range_sizes ! i \<le> max_prime" using end_le by simp
qed

lemma partition_12_5:
  "partition 12 5 =
     ([4, 2, 2, 2, 2], [0, 4, 6, 8, 10],
      [[False, False, False, False], [False, False], [False, False], [False, False],
       [False, False]])"
  by code_simp

text \<open>
  C2. For every bound \<open>max_prime > 0\<close> and every \<open>process_count\<close> in
  \<open>[1, max_prime]\<close>, the sizes and offsets the orchestrator computes describe
  \<open>process_count\<close> contiguous partitions \<open>[offset, offset + size)\<close>: the first starts
  at 0 and each next one where the previous one ends, they are pairwise disjoint, their
  union is exactly \<open>[0, max_prime)\<close>, their sizes sum to \<open>max_prime\<close>, and the offsets
  are strictly ascending in the order of the partition ids, a partition of smaller id
  lying wholly below one of larger id.
\<close>

theorem partition_contiguous_disjoint_cover:
  assumes "0 < max_prime" and "1 \<le> process_count" and "process_count \<le> max_prime"
    and "partition max_prime process_count = (range_sizes, range_offsets, prime_tables)"
  shows "length range_sizes = process_count \<and> length range_offsets = process_count \<and>
         range_offsets ! 0 = 0 \<and>
         (\<forall>i. Suc i < process_count \<longrightarrow>
            range_offsets ! Suc i = range_offsets ! i + range_sizes ! i) \<and>
         (\<forall>i j. i < process_count \<and> j < process_count \<and> i \<noteq> j \<longrightarrow>
            range_of range_offsets range_sizes i \<inter> range_of range_offsets range_sizes j = {}) \<and>
         (\<Union>i<process_count. range_of range_offsets range_sizes i) = {0..<max_prime} \<and>
         sum_list range_sizes = max_prime \<and>
         (\<forall>i j. i < j \<and> j < process_count \<longrightarrow>
            range_offsets ! i < range_offsets ! j \<and>
            range_offsets ! i + range_sizes ! i \<le> range_offsets ! j) \<and>
         sorted_wrt (<) range_offsets"
proof -
  note p = assms(4)
  let ?q = "max_prime div process_count"
  have q: "0 < ?q" using assms(2,3) by (simp add: div_greater_zero_iff)
  have pos: "0 < range_sizes ! i" if "i < process_count" for i
    using partition_nth(1) [OF p that] q by simp
  have ordered: "range_offsets ! i + range_sizes ! i \<le> range_offsets ! j"
    if "i < j" "j < process_count" for i j
    using partition_ordered [OF p that] .
  have strict: "range_offsets ! i < range_offsets ! j" if "i < j" "j < process_count" for i j
    using ordered [OF that] pos [of i] that by simp
  have disjoint: "range_of range_offsets range_sizes i \<inter> range_of range_offsets range_sizes j = {}"
    if "i < process_count" "j < process_count" "i \<noteq> j" for i j
  proof (cases "i < j")
    case True
    then show ?thesis using ordered [OF True that(2)] by (auto simp: range_of_def)
  next
    case False
    then have "j < i" using that(3) by simp
    then show ?thesis using ordered [OF \<open>j < i\<close> that(1)] by (auto simp: range_of_def)
  qed
  have next_offset: "range_offsets ! Suc i = range_offsets ! i + range_sizes ! i"
    if "Suc i < process_count" for i
    using partition_nth(2) [OF p that] partition_nth(3) [OF p, of i] that by simp
  have "sorted_wrt (<) range_offsets"
    using strict partition_length(2) [OF p] by (simp add: sorted_wrt_iff_nth_less)
  then show ?thesis
    using partition_length [OF p] partition_nth(2) [OF p, of 0] assms(2) next_offset disjoint
      partition_union [OF p assms(2,3)] partition_sum_sizes [OF p assms(2)] strict ordered
    by simp
qed

theorem partition_contiguous_disjoint_cover_witness:
  "(0 :: nat) < 12 \<and> (1 :: nat) \<le> 5 \<and> (5 :: nat) \<le> 12 \<and>
   fst (partition 12 5) = [4, 2, 2, 2, 2] \<and> fst (snd (partition 12 5)) = [0, 4, 6, 8, 10] \<and>
   (\<Union>i<5. range_of [0, 4, 6, 8, 10] [4, 2, 2, 2, 2] i) = {0..<12} \<and>
   sum_list [4, 2, 2, 2, 2] = (12 :: nat) \<and>
   sorted_wrt (<) [0, 4, 6, 8, 10 :: nat]"
  using partition_contiguous_disjoint_cover [OF _ _ _ partition_12_5]
  by (simp add: partition_12_5)

text \<open>
  C3 as stated: the sizes of any two partitions differ by at most 1. For the bound 12
  and 5 workers (the run for 5 primes on 5 processes) the first partition has 4 integers
  and the second 2.
\<close>

theorem partition_12_5_sizes_differ_by_2:
  "(0 :: nat) < 12 \<and> (1 :: nat) \<le> 5 \<and> (5 :: nat) \<le> 12 \<and>
   fst (partition 12 5) ! 0 = 4 \<and> fst (partition 12 5) ! 1 = 2 \<and>
   \<not> fst (partition 12 5) ! 0 \<le> fst (partition 12 5) ! 1 + 1"
  by (simp add: partition_12_5)

text \<open>
  C3, amended. For every bound \<open>max_prime > 0\<close> and every \<open>process_count\<close> in
  \<open>[1, max_prime]\<close>, the first partition has
  \<open>max_prime div process_count + max_prime mod process_count\<close> integers and every later
  one \<open>max_prime div process_count\<close>: the whole remainder goes to the first partition,
  so the sizes of two partitions differ by at most the remainder, which is less than
  \<open>process_count\<close>; no partition is empty and the sizes sum to \<open>max_prime\<close>.
\<close>

theorem partition_first_absorbs_remainder:
  assumes "0 < max_prime" and "1 \<le> process_count" and "process_count \<le> max_prime"
    and "partition max_prime process_count = (range_sizes, range_offsets, prime_tables)"
  shows "range_sizes ! 0 = max_prime div process_count + max_prime mod process_count \<and>
         (\<forall>i. 0 < i \<and> i < process_count \<longrightarrow> range_sizes ! i = max_prime div process_count) \<and>
         (\<forall>i j. i < process_count \<and> j < process_count \<longrightarrow>
            range_sizes ! i \<le> range_sizes ! j + max_prime mod process_count) \<and>
         max_prime mod process_count < process_count \<and>
         sum_list range_sizes = max_prime \<and>
         (\<forall>i. i < process_count \<longrightarrow> 0 < range_sizes ! i)"
proof -
  note p = assms(4)
  have q: "0 < max_prime div process_count" using assms(2,3) by (simp add: div_greater_zero_iff)
  have "range_sizes ! i \<le> range_sizes ! j + max_prime mod process_count"
    if "i < process_count" "j < process_count" for i j
    using partition_nth(1) [OF p that(1)] partition_nth(1) [OF p that(2)] by (simp split: if_splits)
  moreover have "0 < range_sizes ! i" if "i < process_count" for i
    using partition_nth(1) [OF p that] q by simp
  ultimately show ?thesis
    using partition_nth(1) [OF p] assms(2) partition_sum_sizes [OF p assms(2)] by simp
qed

theorem partition_first_absorbs_remainder_witness:
  "(0 :: nat) < 12 \<and> (1 :: nat) \<le> 5 \<and> (5 :: nat) \<le> 12 \<and>
   fst (partition 12 5) ! 0 = 12 div 5 + 12 mod 5 \<and>
   fst (partition 12 5) ! 4 = 12 div 5 \<and>
   fst (partition 12 5) ! 0 \<le> fst (partition 12 5) ! 4 + 12 mod 5"
  using partition_first_absorbs_remainder [OF _ _ _ partition_12_5]
  by (simp add: partition_12_5)

section \<open>The aggregation of the prime tables\<close>

lemma aggregate_table_from:
  "1 \<le> prime_count \<Longrightarrow>
   aggregate_table prime_table range_offset j (prime_count, out) =
     (let entries = map (\<lambda>j. range_offset + j) (filter (\<lambda>j. prime_table ! j) [j..<length prime_table])
      in if nat prime_count \<le> length entries
         then (True, 0, out @ take (nat prime_count) entries)
         else (False, prime_count - int (length entries), out @ entries))"
proof (induction prime_table range_offset j "(prime_count, out)" arbitrary: prime_count out
    rule: aggregate_table.induct)
  case (1 prime_table range_offset j prime_count out)
  show ?case
  proof (cases "j < length prime_table")
    case False
    then show ?thesis
      using "1.prems" by (simp add: aggregate_table.simps [of prime_table range_offset j])
  next
    case True
    then have upt: "[j..<length prime_table] = j # [j + 1..<length prime_table]"
      by (simp add: upt_conv_Cons)
    show ?thesis
    proof (cases "prime_table ! j")
      case False
      then show ?thesis
        using True "1.prems" "1.hyps"(2) [OF True False "1.prems"]
        by (simp add: aggregate_table.simps [of prime_table range_offset j] upt)
    next
      case entry: True
      show ?thesis
      proof (cases "prime_count - 1 = 0")
        case True
        then have "prime_count = 1" by simp
        then show ?thesis
          using \<open>j < length prime_table\<close> entry
          by (simp add: aggregate_table.simps [of prime_table range_offset j] upt)
      next
        case False
        then have more: "1 \<le> prime_count - 1" using "1.prems" by simp
        have nat_eq: "nat prime_count = Suc (nat (prime_count - 1))" using more by simp
        show ?thesis
          using \<open>j < length prime_table\<close> entry False
            "1.hyps"(1) [OF \<open>j < length prime_table\<close> entry refl refl False more]
          by (simp add: aggregate_table.simps [of prime_table range_offset j] upt Let_def nat_eq)
      qed
    qed
  qed
qed


lemma aggregate_table_entries:
  "1 \<le> prime_count \<Longrightarrow>
   aggregate_table prime_table range_offset 0 (prime_count, out) =
     (if nat prime_count \<le> length (true_entries prime_table range_offset)
      then (True, 0, out @ take (nat prime_count) (true_entries prime_table range_offset))
      else (False, prime_count - int (length (true_entries prime_table range_offset)),
            out @ true_entries prime_table range_offset))"
  by (simp add: aggregate_table_from true_entries_def Let_def)

lemma aggregate_from:
  "1 \<le> prime_count \<Longrightarrow>
   aggregate prime_tables range_offsets process_count i (prime_count, out) =
     (let entries = concat (map (\<lambda>i. true_entries (prime_tables ! i) (range_offsets ! i))
                       [i..<process_count])
      in if nat prime_count \<le> length entries
         then (True, 0, out @ take (nat prime_count) entries)
         else (False, prime_count - int (length entries), out @ entries))"
proof (induction prime_tables range_offsets process_count i "(prime_count, out)"
    arbitrary: prime_count out rule: aggregate.induct)
  case (1 prime_tables range_offsets process_count i prime_count out)
  show ?case
  proof (cases "i < process_count")
    case False
    then show ?thesis
      using "1.prems" by (simp add: aggregate.simps [of prime_tables range_offsets process_count i])
  next
    case True
    let ?es = "true_entries (prime_tables ! i) (range_offsets ! i)"
    have upt: "[i..<process_count] = i # [i + 1..<process_count]"
      using True by (simp add: upt_conv_Cons)
    show ?thesis
    proof (cases "nat prime_count \<le> length ?es")
      case enough: True
      then show ?thesis
        using True "1.prems"
        by (simp add: aggregate.simps [of prime_tables range_offsets process_count i]
            aggregate_table_entries upt)
    next
      case False
      then have more: "1 \<le> prime_count - int (length ?es)" by simp
      have inner: "aggregate_table (prime_tables ! i) (range_offsets ! i) 0 (prime_count, out)
          = (False, prime_count - int (length ?es), out @ ?es)"
        using False "1.prems" by (simp add: aggregate_table_entries)
      have n: "nat (prime_count - int (length ?es)) = nat prime_count - length ?es"
        by simp
      show ?thesis
        using True False "1.hyps" [OF True inner [symmetric] refl more]
        by (simp add: aggregate.simps [of prime_tables range_offsets process_count i] inner upt
            Let_def n) (auto simp: not_le)
    qed
  qed
qed

lemma aggregate_all:
  assumes "1 \<le> prime_count"
  shows "aggregate prime_tables range_offsets process_count 0 (prime_count, []) =
     (nat prime_count \<le> length (all_true_entries prime_tables range_offsets process_count),
      prime_count - int (length (take (nat prime_count)
         (all_true_entries prime_tables range_offsets process_count))),
      take (nat prime_count) (all_true_entries prime_tables range_offsets process_count))"
  using assms by (auto simp add: aggregate_from all_true_entries_def Let_def min_def)


lemma true_entries_sorted: "sorted_wrt (<) (true_entries prime_table range_offset)"
  unfolding true_entries_def
  by (simp add: sorted_wrt_map sorted_wrt_filter)

lemma true_entries_bounds:
  "x \<in> set (true_entries prime_table range_offset) \<Longrightarrow>
     range_offset \<le> x \<and> x < range_offset + length prime_table"
  by (auto simp: true_entries_def)

lemma layout_mono:
  assumes layout: "\<And>i. Suc i < process_count \<Longrightarrow>
      range_offsets ! i + length (prime_tables ! i) \<le> range_offsets ! Suc i"
  shows "i < j \<Longrightarrow> j < process_count \<Longrightarrow>
      range_offsets ! i + length (prime_tables ! i) \<le> range_offsets ! j"
proof (induction j)
  case 0
  then show ?case by simp
next
  case (Suc j)
  show ?case
  proof (cases "i = j")
    case True
    then show ?thesis using layout [of j] Suc.prems by simp
  next
    case False
    then have "range_offsets ! i + length (prime_tables ! i) \<le> range_offsets ! j"
      using Suc by simp
    also have "\<dots> \<le> range_offsets ! j + length (prime_tables ! j)" by simp
    also have "\<dots> \<le> range_offsets ! Suc j" using layout [of j] Suc.prems by simp
    finally show ?thesis .
  qed
qed

lemma all_true_entries_Suc:
  "all_true_entries prime_tables range_offsets (Suc n) =
     all_true_entries prime_tables range_offsets n @
     true_entries (prime_tables ! n) (range_offsets ! n)"
  by (simp add: all_true_entries_def)

lemma all_true_entries_member:
  "x \<in> set (all_true_entries prime_tables range_offsets n) \<Longrightarrow>
     \<exists>i<n. x \<in> set (true_entries (prime_tables ! i) (range_offsets ! i))"
  by (auto simp: all_true_entries_def)

lemma all_true_entries_sorted:
  assumes layout: "\<And>i. Suc i < process_count \<Longrightarrow>
      range_offsets ! i + length (prime_tables ! i) \<le> range_offsets ! Suc i"
  shows "n \<le> process_count \<Longrightarrow>
     sorted_wrt (<) (all_true_entries prime_tables range_offsets n)"
proof (induction n)
  case 0
  then show ?case by (simp add: all_true_entries_def)
next
  case (Suc n)
  have "x < y"
    if x: "x \<in> set (all_true_entries prime_tables range_offsets n)"
      and y: "y \<in> set (true_entries (prime_tables ! n) (range_offsets ! n))" for x y
  proof -
    obtain i where i: "i < n" and xi: "x \<in> set (true_entries (prime_tables ! i) (range_offsets ! i))"
      using all_true_entries_member [OF x] by auto
    have "x < range_offsets ! i + length (prime_tables ! i)"
      using true_entries_bounds [OF xi] by simp
    also have "\<dots> \<le> range_offsets ! n"
      using layout_mono [OF layout i] Suc.prems by simp
    also have "\<dots> \<le> y" using true_entries_bounds [OF y] by simp
    finally show ?thesis .
  qed
  then show ?case
    using Suc by (simp add: all_true_entries_Suc sorted_wrt_append true_entries_sorted)
qed

lemma layout_12_5:
  "\<forall>i. Suc i < 5 \<longrightarrow>
     [0, 4, 6, 8, 10 :: nat] ! i
       + length ([[False, False, True, True], [False, True], [False, True], [False, False],
                  [False, True]] ! i)
     \<le> [0, 4, 6, 8, 10] ! Suc i"
proof (intro allI impI)
  fix i :: nat
  assume "Suc i < 5"
  then have "i = 0 \<or> i = 1 \<or> i = 2 \<or> i = 3" by arith
  then show "[0, 4, 6, 8, 10 :: nat] ! i
       + length ([[False, False, True, True], [False, True], [False, True], [False, False],
                  [False, True]] ! i)
     \<le> [0, 4, 6, 8, 10] ! Suc i"
    by auto
qed

lemma aggregate_12_5:
  "aggregate [[False, False, True, True], [False, True], [False, True], [False, False],
              [False, True]] [0, 4, 6, 8, 10] 5 0 (3, []) = (True, 0, [2, 3, 5])"
  by code_simp

lemma all_true_entries_12_5:
  "all_true_entries [[False, False, True, True], [False, True], [False, True], [False, False],
                     [False, True]] [0, 4, 6, 8, 10] 5 = [2, 3, 5, 7, 11]"
  by code_simp

text \<open>
  C4. For all prime tables laid over partitions of ascending offsets (table \<open>i\<close> ends at
  or before the offset of table \<open>i + 1\<close>) and every \<open>prime_count \<ge> 1\<close>, the
  aggregation walks the tables in ascending id order and each table in ascending index
  order, writes \<open>offset + index\<close> for exactly the true entries until \<open>prime_count\<close>
  integers are written: the output is the first \<open>prime_count\<close> of those integers (all
  of them when there are fewer), \<open>goto exit\<close> is taken exactly when the
  \<open>prime_count\<close>-th integer has been written, at most \<open>prime_count\<close> integers are
  written, and the output is strictly increasing.
\<close>

theorem aggregate_emits_first_true_entries_in_order:
  assumes "1 \<le> prime_count"
    and "length prime_tables = process_count" and "length range_offsets = process_count"
    and "\<forall>i. Suc i < process_count \<longrightarrow>
           range_offsets ! i + length (prime_tables ! i) \<le> range_offsets ! Suc i"
  shows "aggregate prime_tables range_offsets process_count 0 (prime_count, []) =
           (nat prime_count \<le> length (all_true_entries prime_tables range_offsets process_count),
            prime_count - int (length (take (nat prime_count)
              (all_true_entries prime_tables range_offsets process_count))),
            take (nat prime_count) (all_true_entries prime_tables range_offsets process_count)) \<and>
         length (snd (snd (aggregate prime_tables range_offsets process_count 0 (prime_count, []))))
           \<le> nat prime_count \<and>
         sorted_wrt (<)
           (snd (snd (aggregate prime_tables range_offsets process_count 0 (prime_count, []))))"
proof -
  have "sorted_wrt (<) (all_true_entries prime_tables range_offsets process_count)"
    using all_true_entries_sorted [of process_count range_offsets prime_tables process_count]
      assms(4) by simp
  then have "sorted_wrt (<)
      (take (nat prime_count) (all_true_entries prime_tables range_offsets process_count))"
    by (rule sorted_wrt_take)
  then show ?thesis
    by (simp add: aggregate_all [OF assms(1)])
qed

theorem aggregate_emits_first_true_entries_in_order_witness:
  "(1 :: int) \<le> 3 \<and>
   length [[False, False, True, True], [False, True], [False, True], [False, False],
           [False, True]] = 5 \<and>
   length [0, 4, 6, 8, 10 :: nat] = 5 \<and>
   aggregate [[False, False, True, True], [False, True], [False, True], [False, False],
              [False, True]] [0, 4, 6, 8, 10] 5 0 (3, []) = (True, 0, [2, 3, 5]) \<and>
   take (nat 3) (all_true_entries [[False, False, True, True], [False, True], [False, True],
      [False, False], [False, True]] [0, 4, 6, 8, 10] 5) = [2, 3, 5] \<and>
   sorted_wrt (<) [2, 3, 5 :: nat]"
  using aggregate_emits_first_true_entries_in_order [OF _ _ _ layout_12_5, of 3]
  by (simp add: aggregate_12_5 all_true_entries_12_5)

section \<open>The worker\<close>

lemma helper_loop_completes:
  assumes "range_id < length tables" and "size' \<le> length (tables ! range_id)"
  shows "\<exists>tables'.
     helper_loop random_int range_id offset size' i (Some tables) effects =
       Inr (Some tables',
             effects @ map (\<lambda>j. Vector_Write range_id j (is_prime (random_int j) (offset + of_nat j)))
                         [i..<size']) \<and>
     length tables' = length tables \<and>
     length (tables' ! range_id) = length (tables ! range_id) \<and>
     (\<forall>j. i \<le> j \<and> j < size' \<longrightarrow>
        tables' ! range_id ! j = is_prime (random_int j) (offset + of_nat j)) \<and>
     (\<forall>j. j < i \<longrightarrow> tables' ! range_id ! j = tables ! range_id ! j)"
  using assms
proof (induction "size' - i" arbitrary: i tables effects)
  case 0
  then show ?case
    by (auto simp add: helper_loop.simps [of random_int range_id offset size' i])
next
  case (Suc n)
  then have lt: "i < size'" by simp
  define b where "b = is_prime (random_int i) (offset + of_nat i)"
  define t where "t = tables[range_id := (tables ! range_id)[i := b]]"
  have t1: "range_id < length t" and t2: "size' \<le> length (t ! range_id)"
    using Suc.prems by (simp_all add: t_def)
  have n: "n = size' - (i + 1)" using Suc.hyps(2) by simp
  obtain tables' where
    run: "helper_loop random_int range_id offset size' (i + 1) (Some t)
            (effects @ [Vector_Write range_id i b]) =
          Inr (Some tables',
             (effects @ [Vector_Write range_id i b]) @
               map (\<lambda>j. Vector_Write range_id j (is_prime (random_int j) (offset + of_nat j)))
                 [i + 1..<size'])"
    and len: "length tables' = length t" "length (tables' ! range_id) = length (t ! range_id)"
    and new: "\<forall>j. i + 1 \<le> j \<and> j < size' \<longrightarrow>
        tables' ! range_id ! j = is_prime (random_int j) (offset + of_nat j)"
    and old: "\<forall>j. j < i + 1 \<longrightarrow> tables' ! range_id ! j = t ! range_id ! j"
    using Suc.hyps(1) [OF n t1 t2, of "effects @ [Vector_Write range_id i b]"] by blast
  have step: "helper_loop random_int range_id offset size' i (Some tables) effects =
      helper_loop random_int range_id offset size' (i + 1) (Some t)
            (effects @ [Vector_Write range_id i b])"
    using lt Suc.prems
    by (simp add: helper_loop.simps [of random_int range_id offset size' i] b_def t_def Let_def)
  have upt: "[i..<size'] = i # [i + 1..<size']" using lt by (simp add: upt_conv_Cons)
  have ti: "t ! range_id ! i = b" using Suc.prems lt by (simp add: t_def)
  have tj: "t ! range_id ! j = tables ! range_id ! j" if "j < i" for j
    using that Suc.prems by (simp add: t_def)
  have "tables' ! range_id ! j = is_prime (random_int j) (offset + of_nat j)"
    if "i \<le> j \<and> j < size'" for j
  proof (cases "j = i")
    case True
    then show ?thesis using old ti by (simp add: b_def)
  next
    case False
    then show ?thesis using new that by simp
  qed
  moreover have "tables' ! range_id ! j = tables ! range_id ! j" if "j < i" for j
    using old tj that by simp
  ultimately show ?case
    using run len unfolding step upt
    by (intro exI [of _ tables']) (simp add: b_def t_def Suc.prems)
qed

lemma helper_loop_others:
  assumes "range_id < length tables" and "size' \<le> length (tables ! range_id)"
    and "helper_loop random_int range_id offset size' i (Some tables) effects =
           Inr (Some tables', effects')"
    and "q \<noteq> range_id"
  shows "tables' ! q = tables ! q"
  using assms
proof (induction "size' - i" arbitrary: i tables effects)
  case 0
  then show ?case
    by (simp add: helper_loop.simps [of random_int range_id offset size' i])
next
  case (Suc n)
  then have lt: "i < size'" by simp
  define b where "b = is_prime (random_int i) (offset + of_nat i)"
  define t where "t = tables[range_id := (tables ! range_id)[i := b]]"
  have t1: "range_id < length t" and t2: "size' \<le> length (t ! range_id)"
    using Suc.prems by (simp_all add: t_def)
  have n: "n = size' - (i + 1)" using Suc.hyps(2) by simp
  have step: "helper_loop random_int range_id offset size' i (Some tables) effects =
      helper_loop random_int range_id offset size' (i + 1) (Some t)
            (effects @ [Vector_Write range_id i b])"
    using lt Suc.prems
    by (simp add: helper_loop.simps [of random_int range_id offset size' i] b_def t_def Let_def)
  have "tables' ! q = t ! q"
    using Suc.hyps(1) [OF n t1 t2 Suc.prems(3) [unfolded step] Suc.prems(4)] .
  then show ?case using Suc.prems(4) by (simp add: t_def)
qed

lemma check_argument_None: "check_argument cfg (strtoimax arg) k = None \<longleftrightarrow> validated arg"
  by (auto simp add: check_argument_def validated_def)

lemma check_argument_validated:
  "validated arg \<Longrightarrow> check_argument cfg (strtoimax arg) k = None"
  by (simp add: check_argument_None)

lemma check_argument_rejected:
  "\<not> validated arg \<Longrightarrow> \<exists>msg. check_argument cfg (strtoimax arg) k = Some msg"
  using check_argument_None [of cfg arg k] by (cases "check_argument cfg (strtoimax arg) k") auto

lemma helper_main_rejects:
  assumes "\<not> (length argv = 4 \<and> validated (argv ! 1) \<and> validated (argv ! 2) \<and>
              validated (argv ! 3))"
  shows "\<exists>lines. helper_main cfg random_int argv os =
           (Exit 1, os\<lparr>cerr := cerr os @ lines\<rparr>, map Cerr_Line lines)"
proof (cases "length argv = 4")
  case False
  then show ?thesis
    by (intro exI [of _ "helper_show_usage cfg"]) (simp add: helper_main_def)
next
  case len: True
  show ?thesis
  proof (cases "validated (argv ! 1)")
    case False
    then obtain msg where "check_argument cfg (strtoimax (argv ! 1)) 1 = Some msg"
      using check_argument_rejected by blast
    then show ?thesis
      using len by (intro exI [of _ "[msg]"]) (simp add: helper_main_def Let_def)
  next
    case v1: True
    show ?thesis
    proof (cases "validated (argv ! 2)")
      case False
      then obtain msg where "check_argument cfg (strtoimax (argv ! 2)) 2 = Some msg"
        using check_argument_rejected by blast
      then show ?thesis
        using len v1
        by (intro exI [of _ "[msg]"]) (simp add: helper_main_def Let_def check_argument_validated)
    next
      case v2: True
      then have "\<not> validated (argv ! 3)" using assms len v1 by simp
      then obtain msg where "check_argument cfg (strtoimax (argv ! 3)) 3 = Some msg"
        using check_argument_rejected by blast
      then show ?thesis
        using len v1 v2
        by (intro exI [of _ "[msg]"]) (simp add: helper_main_def Let_def check_argument_validated)
    qed
  qed
qed

lemma helper_main_loop:
  assumes "length argv = 4"
    and "validated (argv ! 1)" and "validated (argv ! 2)" and "validated (argv ! 3)"
    and "segment os = Some prime_tables" and "semaphore os = Some n_done"
  shows "helper_main cfg random_int argv os =
     (case helper_loop random_int (nat (fst (strtoimax (argv ! 1))))
             (of_int (fst (strtoimax (argv ! 2)))) (nat (fst (strtoimax (argv ! 3)))) 0
             prime_tables [] of
        Inl (prime_tables', effects) \<Rightarrow>
          (Undefined, os\<lparr>segment := Some prime_tables'\<rparr>, effects)
      | Inr (prime_tables', effects) \<Rightarrow>
          (Exit 0,
           os\<lparr>segment := Some prime_tables', semaphore := Some (n_done + 1)\<rparr>,
           effects @ [Semaphore_Post]))"
  using assms by (simp add: helper_main_def Let_def check_argument_validated)

lemma count_list_writes:
  "count_list (map (\<lambda>j. Vector_Write p j (f j)) js) Semaphore_Post = 0"
  by (induction js) simp_all

lemma helper_run_1_4_2:
 "helper_main a_config (always (always 2))
    [''./distributed-prime-numbers-helper'', ''1'', ''4'', ''2'']
    \<lparr>segment = Some (Some [[False, False, False, False], [False, False]]), semaphore = Some 0,
     cout = [], cerr = []\<rparr> =
  (Exit 0,
   \<lparr>segment = Some (Some [[False, False, False, False], [False, True]]), semaphore = Some 1,
    cout = [], cerr = []\<rparr>,
   [Vector_Write 1 0 False, Vector_Write 1 1 True, Semaphore_Post])"
  by code_simp

lemma validated_1_4_2: "validated ''1''" "validated ''4''" "validated ''2''"
  by code_simp+

lemma strtoimax_1_4_2:
  "strtoimax ''1'' = (1, 1)" "strtoimax ''4'' = (4, 1)" "strtoimax ''2'' = (2, 1)"
  by code_simp+

lemma helper_run_without_store:
 "helper_main a_config (always (always 2))
    [''./distributed-prime-numbers-helper'', ''1'', ''4'', ''2'']
    \<lparr>segment = None, semaphore = None, cout = [], cerr = []\<rparr> =
  (Terminated, \<lparr>segment = None, semaphore = None, cout = [], cerr = []\<rparr>, [])"
  by code_simp

text \<open>
  C7 as stated: every worker invocation with validated, non-negative arguments posts to
  the semaphore exactly once. The worker opens the store and the semaphore with
  \<open>open_only\<close>: started with validated arguments where no store of the fixed name
  exists, it ends by the uncaught exception and never posts.
\<close>

theorem helper_main_without_store_never_posts:
  "validated ''1'' \<and> validated ''4'' \<and> validated ''2'' \<and>
   helper_main a_config (always (always 2))
     [''./distributed-prime-numbers-helper'', ''1'', ''4'', ''2'']
     \<lparr>segment = None, semaphore = None, cout = [], cerr = []\<rparr> =
   (Terminated, \<lparr>segment = None, semaphore = None, cout = [], cerr = []\<rparr>, []) \<and>
   count_list (snd (snd (helper_main a_config (always (always 2))
     [''./distributed-prime-numbers-helper'', ''1'', ''4'', ''2'']
     \<lparr>segment = None, semaphore = None, cout = [], cerr = []\<rparr>))) Semaphore_Post = 0"
  by (simp add: helper_run_without_store validated_1_4_2)

text \<open>
  C7, amended. For every worker invocation with validated, non-negative
  \<open>(range_id, offset, size)\<close> that finds the named store and semaphore, \<open>range_id\<close>
  naming a vector of the store with at least \<open>size\<close> entries, the run returns 0 and its
  visible effects are, in this order, the writes of entries \<open>0, \<dots>, size - 1\<close> of
  vector \<open>range_id\<close> and then one post to the semaphore: the worker posts exactly once,
  after the whole vector is written, and the post is its last effect, whatever the draws
  and however many entries are true.
\<close>

theorem helper_main_posts_once_after_all_writes:
  assumes "length argv = 4"
    and "validated (argv ! 1)" and "validated (argv ! 2)" and "validated (argv ! 3)"
    and "range_id = nat (fst (strtoimax (argv ! 1)))"
    and "offset = of_int (fst (strtoimax (argv ! 2)))"
    and "size' = nat (fst (strtoimax (argv ! 3)))"
    and "segment os = Some (Some tables)" and "semaphore os = Some n_done"
    and "range_id < length tables" and "size' \<le> length (tables ! range_id)"
    and "helper_main cfg random_int argv os = (ended, os', effects)"
  shows "ended = Exit 0 \<and>
         effects = map (\<lambda>j. Vector_Write range_id j (is_prime (random_int j) (offset + of_nat j)))
                     [0..<size'] @ [Semaphore_Post] \<and>
         count_list effects Semaphore_Post = 1 \<and> last effects = Semaphore_Post \<and>
         semaphore os' = Some (n_done + 1) \<and>
         (\<exists>tables'. segment os' = Some (Some tables') \<and>
            (\<forall>j. j < size' \<longrightarrow>
               tables' ! range_id ! j = is_prime (random_int j) (offset + of_nat j)))"
proof -
  obtain tables' where
    run: "helper_loop random_int range_id offset size' 0 (Some tables) [] =
       Inr (Some tables',
             [] @ map (\<lambda>j. Vector_Write range_id j (is_prime (random_int j) (offset + of_nat j)))
                         [0..<size'])"
    and new: "\<forall>j. 0 \<le> j \<and> j < size' \<longrightarrow>
        tables' ! range_id ! j = is_prime (random_int j) (offset + of_nat j)"
    using helper_loop_completes [OF assms(10,11), of random_int offset 0 "[]"] by blast
  have "helper_main cfg random_int argv os =
      (Exit 0, os\<lparr>segment := Some (Some tables'), semaphore := Some (n_done + 1)\<rparr>,
       map (\<lambda>j. Vector_Write range_id j (is_prime (random_int j) (offset + of_nat j)))
                     [0..<size'] @ [Semaphore_Post])"
    using run
    unfolding helper_main_loop [OF assms(1-4,8,9)] assms(5,6,7)
    by simp
  then show ?thesis
    using assms(12) new by (auto simp add: count_list_writes)
qed

theorem helper_main_posts_once_after_all_writes_witness:
  "length [''./distributed-prime-numbers-helper'', ''1'', ''4'', ''2''] = 4 \<and>
   validated ''1'' \<and> validated ''4'' \<and> validated ''2'' \<and>
   nat (fst (strtoimax ''1'')) < length [[False, False, False, False], [False, False]] \<and>
   nat (fst (strtoimax ''2''))
     \<le> length ([[False, False, False, False], [False, False]] ! nat (fst (strtoimax ''1''))) \<and>
   snd (snd (helper_main a_config (always (always 2))
      [''./distributed-prime-numbers-helper'', ''1'', ''4'', ''2'']
      \<lparr>segment = Some (Some [[False, False, False, False], [False, False]]),
       semaphore = Some 0, cout = [], cerr = []\<rparr>)) =
     [Vector_Write 1 0 False, Vector_Write 1 1 True, Semaphore_Post] \<and>
   count_list (snd (snd (helper_main a_config (always (always 2))
      [''./distributed-prime-numbers-helper'', ''1'', ''4'', ''2'']
      \<lparr>segment = Some (Some [[False, False, False, False], [False, False]]),
       semaphore = Some 0, cout = [], cerr = []\<rparr>))) Semaphore_Post = 1"
proof -
  have len: "length [''./distributed-prime-numbers-helper'', ''1'', ''4'', ''2''] = 4"
    by simp
  have id: "(1 :: nat) = nat (fst (strtoimax ([''./distributed-prime-numbers-helper'', ''1'', ''4'', ''2''] ! 1)))"
    and off: "(4 :: u64) = of_int (fst (strtoimax ([''./distributed-prime-numbers-helper'', ''1'', ''4'', ''2''] ! 2)))"
    and sz: "(2 :: nat) = nat (fst (strtoimax ([''./distributed-prime-numbers-helper'', ''1'', ''4'', ''2''] ! 3)))"
    by (simp_all add: strtoimax_1_4_2)
  have v: "validated ([''./distributed-prime-numbers-helper'', ''1'', ''4'', ''2''] ! 1)"
    "validated ([''./distributed-prime-numbers-helper'', ''1'', ''4'', ''2''] ! 2)"
    "validated ([''./distributed-prime-numbers-helper'', ''1'', ''4'', ''2''] ! 3)"
    by (simp_all add: validated_1_4_2)
  have env: "segment \<lparr>segment = Some (Some [[False, False, False, False], [False, False]]),
          semaphore = Some 0, cout = [], cerr = []\<rparr> =
        Some (Some [[False, False, False, False], [False, False]])"
    "semaphore \<lparr>segment = Some (Some [[False, False, False, False], [False, False]]),
          semaphore = Some 0, cout = [], cerr = []\<rparr> = Some 0"
    "(1 :: nat) < length [[False, False, False, False], [False, False]]"
    "(2 :: nat) \<le> length ([[False, False, False, False], [False, False]] ! 1)"
    by simp_all
  note post = helper_main_posts_once_after_all_writes
    [OF len v id off sz env helper_run_1_4_2]
  have "count_list [Vector_Write 1 0 False, Vector_Write 1 1 True, Semaphore_Post]
      Semaphore_Post = 1"
    using post by blast
  then show ?thesis
    by (simp add: validated_1_4_2 strtoimax_1_4_2 helper_run_1_4_2)
qed


text \<open>
  The runs that are not in range: the arguments pass the checks, the store and the
  semaphore are found, \<open>size\<close> is not 0 and the store holds no vector \<open>range_id\<close>
  with at least \<open>size\<close> entries. Every one of them ends in a write that is not to an
  entry of vector \<open>range_id\<close>.
\<close>

lemma helper_loop_out_of_range:
  assumes "i < size'"
    and "\<not> (range_id < length tables \<and> size' \<le> length (tables ! range_id))"
  shows "\<exists>tables' effects' j b.
     helper_loop random_int range_id offset size' i (Some tables) effects =
       Inl (Some tables', effects' @ [Vector_Write range_id j b]) \<and>
     \<not> (range_id < length tables \<and> j < length (tables ! range_id))"
  using assms
proof (induction "size' - i" arbitrary: i tables effects)
  case 0
  then show ?case by simp
next
  case (Suc n)
  define b where "b = is_prime (random_int i) (offset + of_nat i)"
  show ?case
  proof (cases "range_id < length tables \<and> i < length (tables ! range_id)")
    case False
    then have "helper_loop random_int range_id offset size' i (Some tables) effects =
        Inl (Some tables, effects @ [Vector_Write range_id i b])"
      using Suc.prems(1)
      by (auto simp add: helper_loop.simps [of random_int range_id offset size' i] b_def Let_def)
    then show ?thesis using False by blast
  next
    case True
    define t where "t = tables[range_id := (tables ! range_id)[i := b]]"
    have shape: "length t = length tables" "length (t ! range_id) = length (tables ! range_id)"
      using True by (simp_all add: t_def)
    have lt: "i + 1 < size'" using True Suc.prems by simp
    have n: "n = size' - (i + 1)" using Suc.hyps(2) by simp
    have out: "\<not> (range_id < length t \<and> size' \<le> length (t ! range_id))"
      using Suc.prems(2) shape by simp
    have step: "helper_loop random_int range_id offset size' i (Some tables) effects =
        helper_loop random_int range_id offset size' (i + 1) (Some t)
          (effects @ [Vector_Write range_id i b])"
      using True Suc.prems(1)
      by (simp add: helper_loop.simps [of random_int range_id offset size' i] b_def t_def Let_def)
    show ?thesis
      using Suc.hyps(1) [OF n lt out, of "effects @ [Vector_Write range_id i b]"]
      unfolding step shape .
  qed
qed

lemma helper_main_out_of_range:
  assumes "length argv = 4"
    and "validated (argv ! 1)" and "validated (argv ! 2)" and "validated (argv ! 3)"
    and "segment os = Some prime_tables" and "semaphore os = Some n_done"
    and "\<not> in_range os (nat (fst (strtoimax (argv ! 1)))) (nat (fst (strtoimax (argv ! 3))))"
  shows "\<exists>os' effects' j b.
     helper_main cfg random_int argv os =
       (Undefined, os', effects' @ [Vector_Write (nat (fst (strtoimax (argv ! 1)))) j b]) \<and>
     \<not> within_vector os (nat (fst (strtoimax (argv ! 1))))
          (Vector_Write (nat (fst (strtoimax (argv ! 1)))) j b)"
proof -
  define p where "p = nat (fst (strtoimax (argv ! 1)))"
  define off :: u64 where "off = of_int (fst (strtoimax (argv ! 2)))"
  define n where "n = nat (fst (strtoimax (argv ! 3)))"
  have out: "\<not> in_range os p n" using assms(7) by (simp add: p_def n_def)
  then have pos: "0 < n" using assms(5) by (auto simp add: in_range_def split: option.splits)
  have hm: "helper_main cfg random_int argv os =
      (case helper_loop random_int p off n 0 prime_tables [] of
         Inl (prime_tables', effects) \<Rightarrow>
           (Undefined, os\<lparr>segment := Some prime_tables'\<rparr>, effects)
       | Inr (prime_tables', effects) \<Rightarrow>
           (Exit 0,
            os\<lparr>segment := Some prime_tables', semaphore := Some (n_done + 1)\<rparr>,
            effects @ [Semaphore_Post]))"
    unfolding p_def off_def n_def using assms(1-6) by (intro helper_main_loop) simp_all
  show ?thesis
  proof (cases prime_tables)
    case None
    define b where "b = is_prime (random_int 0) (off + of_nat 0)"
    have "helper_loop random_int p off n 0 prime_tables [] =
        Inl (None, [] @ [Vector_Write p 0 b])"
      using pos None by (simp add: helper_loop.simps [of random_int p off n 0] b_def Let_def)
    moreover have "\<not> within_vector os p (Vector_Write p 0 b)"
      using assms(5) None by (simp add: within_vector_def vector_at_def)
    ultimately show ?thesis
      unfolding hm p_def [symmetric] by auto
  next
    case (Some tables)
    have shape: "\<not> (p < length tables \<and> n \<le> length (tables ! p))"
      using out assms(5) Some by (auto simp add: in_range_def vector_at_def)
    obtain tables' effects' j b where
      run: "helper_loop random_int p off n 0 (Some tables) [] =
         Inl (Some tables', effects' @ [Vector_Write p j b])"
      and j: "\<not> (p < length tables \<and> j < length (tables ! p))"
      using helper_loop_out_of_range [OF pos shape, of random_int off "[]"] by blast
    have "\<not> within_vector os p (Vector_Write p j b)"
      using assms(5) Some j by (auto simp add: within_vector_def vector_at_def)
    then show ?thesis
      using run unfolding hm p_def [symmetric] Some by auto
  qed
qed

lemma helper_run_0_2_2:
 "helper_main a_config (always (always 1))
    [''./distributed-prime-numbers-helper'', ''0'', ''2'', ''2'']
    \<lparr>segment = Some (Some [[False], [False, False]]), semaphore = Some 0,
     cout = [], cerr = []\<rparr> =
  (Undefined,
   \<lparr>segment = Some (Some [[True], [False, False]]), semaphore = Some 0,
    cout = [], cerr = []\<rparr>,
   [Vector_Write 0 0 True, Vector_Write 0 1 True])"
  by code_simp

lemma strtoimax_0_2_2: "strtoimax ''0'' = (0, 1)" "strtoimax ''2'' = (2, 1)"
  by code_simp+

text \<open>
  C9 as stated: every worker invocation with partition id \<open>p\<close> modifies only vector
  \<open>p\<close> of the store. The worker checks its arguments for being numbers and not
  negative, and then indexes the array and the vector without a check (lines 78 to 82).
  Started with partition id 0, offset 2 and size 2 on a store whose vector 0 has one
  entry, it writes entry 0 of vector 0 and then writes at index 1, which is not an entry
  of vector 0: a write outside vector 0, to memory of the store that the source does not
  determine, after which the behaviour of the run is undefined.
\<close>

theorem helper_main_writes_outside_its_vector:
  "nat (fst (strtoimax ''0'')) = 0 \<and> nat (fst (strtoimax ''2'')) = 2 \<and>
   vector_at \<lparr>segment = Some (Some [[False], [False, False]]), semaphore = Some 0,
      cout = [], cerr = []\<rparr> 0 = Some [False] \<and>
   fst (helper_main a_config (always (always 1))
     [''./distributed-prime-numbers-helper'', ''0'', ''2'', ''2'']
     \<lparr>segment = Some (Some [[False], [False, False]]), semaphore = Some 0,
      cout = [], cerr = []\<rparr>) = Undefined \<and>
   snd (snd (helper_main a_config (always (always 1))
     [''./distributed-prime-numbers-helper'', ''0'', ''2'', ''2'']
     \<lparr>segment = Some (Some [[False], [False, False]]), semaphore = Some 0,
      cout = [], cerr = []\<rparr>)) = [Vector_Write 0 0 True, Vector_Write 0 1 True] \<and>
   \<not> within_vector \<lparr>segment = Some (Some [[False], [False, False]]), semaphore = Some 0,
      cout = [], cerr = []\<rparr> 0 (Vector_Write 0 1 True)"
  by (simp add: helper_run_0_2_2 strtoimax_0_2_2 vector_at_def within_vector_def)

text \<open>
  C9, amended. For every worker invocation with partition id \<open>p\<close> and size \<open>n\<close> (the
  converted first and third arguments) whose writes are in range, the store holding a
  vector \<open>p\<close> with at least \<open>n\<close> entries (or \<open>n\<close> being 0, or there being no store),
  the behaviour of the run is defined and the run modifies only vector \<open>p\<close> of the
  store: every write is to an entry of vector \<open>p\<close>, and every vector \<open>q \<noteq> p\<close> is
  the same, in length and in every entry, at the exit of the worker as at its start.
  The runs left out are those of \<open>helper_main_out_of_range\<close>, which write outside
  the vector. The workers that the orchestrator launches are in range (lemmas
  \<open>launched_workers_in_range\<close> and \<open>try_block_completes\<close> below).
\<close>

theorem helper_main_in_range_modifies_only_its_vector:
  assumes "helper_main cfg random_int argv os = (ended, os', effects)"
    and "in_range os (nat (fst (strtoimax (argv ! 1)))) (nat (fst (strtoimax (argv ! 3))))"
  shows "ended \<noteq> Undefined \<and>
         list_all (within_vector os (nat (fst (strtoimax (argv ! 1))))) effects \<and>
         (\<forall>q. q \<noteq> nat (fst (strtoimax (argv ! 1))) \<longrightarrow> vector_at os' q = vector_at os q)"
proof (cases "length argv = 4 \<and> validated (argv ! 1) \<and> validated (argv ! 2) \<and> validated (argv ! 3)")
  case False
  then obtain lines where "helper_main cfg random_int argv os =
      (Exit 1, os\<lparr>cerr := cerr os @ lines\<rparr>, map Cerr_Line lines)"
    using helper_main_rejects by blast
  then have "ended = Exit 1" "segment os' = segment os" "effects = map Cerr_Line lines"
    using assms(1) by auto
  then show ?thesis
    by (auto simp add: vector_at_def within_vector_def list_all_iff)
next
  case True
  define p where "p = nat (fst (strtoimax (argv ! 1)))"
  define off :: u64 where "off = of_int (fst (strtoimax (argv ! 2)))"
  define n where "n = nat (fst (strtoimax (argv ! 3)))"
  have inr: "in_range os p n" using assms(2) by (simp add: p_def n_def)
  show ?thesis
  proof (cases "segment os")
    case None
    then have "ended = Terminated \<and> os' = os \<and> effects = []"
      using assms(1) True by (auto simp add: helper_main_def Let_def check_argument_validated)
    then show ?thesis by simp
  next
    case (Some prime_tables)
    show ?thesis
    proof (cases "semaphore os")
      case None
      then have "ended = Terminated \<and> os' = os \<and> effects = []"
        using assms(1) True Some
        by (auto simp add: helper_main_def Let_def check_argument_validated)
      then show ?thesis by simp
    next
      case sem: (Some n_done)
      have hm: "helper_main cfg random_int argv os =
          (case helper_loop random_int p off n 0 prime_tables [] of
             Inl (prime_tables', effects) \<Rightarrow>
               (Undefined, os\<lparr>segment := Some prime_tables'\<rparr>, effects)
           | Inr (prime_tables', effects) \<Rightarrow>
               (Exit 0,
                os\<lparr>segment := Some prime_tables', semaphore := Some (n_done + 1)\<rparr>,
                effects @ [Semaphore_Post]))"
        unfolding p_def off_def n_def using True Some sem by (intro helper_main_loop) simp_all
      show ?thesis
      proof (cases "vector_at os p")
        case None
        then have "n = 0" using inr Some by (simp add: in_range_def)
        have "helper_loop random_int p off 0 0 prime_tables [] = Inr (prime_tables, [])"
          by (simp add: helper_loop.simps [of random_int p off 0 0])
        then have "helper_loop random_int p off n 0 prime_tables [] = Inr (prime_tables, [])"
          using \<open>n = 0\<close> by simp
        then have "ended = Exit 0 \<and> segment os' = segment os \<and> effects = [Semaphore_Post]"
          using assms(1) Some unfolding hm by auto
        then show ?thesis
          by (simp add: vector_at_def within_vector_def)
      next
        case v: (Some v)
        then obtain tables where tables: "prime_tables = Some tables"
          and p: "p < length tables" and tp: "tables ! p = v"
          using Some by (auto simp add: vector_at_def split: option.splits if_splits)
        have n: "n \<le> length (tables ! p)" using inr v tp by (simp add: in_range_def)
        obtain tables' where
          run: "helper_loop random_int p off n 0 (Some tables) [] =
             Inr (Some tables',
                  [] @ map (\<lambda>j. Vector_Write p j (is_prime (random_int j) (off + of_nat j)))
                         [0..<n])"
          and len: "length tables' = length tables"
          using helper_loop_completes [OF p n, of random_int off 0 "[]"] by blast
        have others: "tables' ! q = tables ! q" if "q \<noteq> p" for q
          using helper_loop_others [OF p n run that] .
        have result: "ended = Exit 0" "segment os' = Some (Some tables')"
          "effects = map (\<lambda>j. Vector_Write p j (is_prime (random_int j) (off + of_nat j)))
                         [0..<n] @ [Semaphore_Post]"
          using assms(1) run unfolding hm tables by auto
        have "list_all (within_vector os p) effects"
          using n v tp unfolding result(3)
          by (auto simp add: list_all_iff within_vector_def)
        moreover have "vector_at os' q = vector_at os q" if "q \<noteq> p" for q
          using that others len Some tables result(2) by (simp add: vector_at_def)
        ultimately show ?thesis
          using result(1) unfolding p_def by simp
      qed
    qed
  qed
qed

theorem helper_main_in_range_modifies_only_its_vector_witness:
  "helper_main a_config (always (always 2))
    [''./distributed-prime-numbers-helper'', ''1'', ''4'', ''2'']
    \<lparr>segment = Some (Some [[False, False, False, False], [False, False]]), semaphore = Some 0,
     cout = [], cerr = []\<rparr> =
   (Exit 0,
    \<lparr>segment = Some (Some [[False, False, False, False], [False, True]]), semaphore = Some 1,
     cout = [], cerr = []\<rparr>,
    [Vector_Write 1 0 False, Vector_Write 1 1 True, Semaphore_Post]) \<and>
   in_range \<lparr>segment = Some (Some [[False, False, False, False], [False, False]]),
      semaphore = Some 0, cout = [], cerr = []\<rparr> (nat (fst (strtoimax ''1'')))
      (nat (fst (strtoimax ''2''))) \<and>
   Exit 0 \<noteq> Undefined \<and> (0 :: nat) \<noteq> nat (fst (strtoimax ''1'')) \<and>
   list_all (within_vector \<lparr>segment = Some (Some [[False, False, False, False], [False, False]]),
      semaphore = Some 0, cout = [], cerr = []\<rparr> 1)
     [Vector_Write 1 0 False, Vector_Write 1 1 True, Semaphore_Post] \<and>
   vector_at \<lparr>segment = Some (Some [[False, False, False, False], [False, True]]),
      semaphore = Some 1, cout = [], cerr = []\<rparr> 0 =
   vector_at \<lparr>segment = Some (Some [[False, False, False, False], [False, False]]),
      semaphore = Some 0, cout = [], cerr = []\<rparr> 0"
proof -
  have inr: "in_range \<lparr>segment = Some (Some [[False, False, False, False], [False, False]]),
      semaphore = Some 0, cout = [], cerr = []\<rparr>
      (nat (fst (strtoimax ([''./distributed-prime-numbers-helper'', ''1'', ''4'', ''2''] ! 1))))
      (nat (fst (strtoimax ([''./distributed-prime-numbers-helper'', ''1'', ''4'', ''2''] ! 3))))"
    by (simp add: strtoimax_1_4_2 in_range_def vector_at_def)
  note frame = helper_main_in_range_modifies_only_its_vector [OF helper_run_1_4_2 inr]
  have "list_all (within_vector \<lparr>segment = Some (Some [[False, False, False, False], [False, False]]),
      semaphore = Some 0, cout = [], cerr = []\<rparr> 1)
     [Vector_Write 1 0 False, Vector_Write 1 1 True, Semaphore_Post]"
    using frame by (simp add: strtoimax_1_4_2)
  moreover have "vector_at \<lparr>segment = Some (Some [[False, False, False, False], [False, True]]),
      semaphore = Some 1, cout = [], cerr = []\<rparr> 0 =
   vector_at \<lparr>segment = Some (Some [[False, False, False, False], [False, False]]),
      semaphore = Some 0, cout = [], cerr = []\<rparr> 0"
    using frame by (simp add: strtoimax_1_4_2)
  ultimately show ?thesis
    by (simp add: helper_run_1_4_2 strtoimax_1_4_2 in_range_def vector_at_def)
qed

section \<open>The workers that the orchestrator launches\<close>

text \<open>
  The command line carries the partition id, the offset and the size in decimal, and
  the worker reads them back with \<open>std::strtoimax\<close>: a number within the range of
  \<open>std::intmax_t\<close> comes back as it was written.
\<close>

lemma digit_char:
  assumes "d < 10"
  shows "isdigit (''0123456789'' ! d)" and "digit_value (''0123456789'' ! d) = int d"
    and "\<not> isspace (''0123456789'' ! d)"
    and "''0123456789'' ! d \<noteq> CHR ''-''" and "''0123456789'' ! d \<noteq> CHR ''+''"
proof -
  have "\<forall>d \<in> set [0..<10]. isdigit (''0123456789'' ! d) \<and>
      digit_value (''0123456789'' ! d) = int d \<and> \<not> isspace (''0123456789'' ! d) \<and>
      ''0123456789'' ! d \<noteq> CHR ''-'' \<and> ''0123456789'' ! d \<noteq> CHR ''+''"
    by code_simp
  moreover have "d \<in> set [0..<10]" using assms by simp
  ultimately have "isdigit (''0123456789'' ! d) \<and> digit_value (''0123456789'' ! d) = int d \<and>
      \<not> isspace (''0123456789'' ! d) \<and>
      ''0123456789'' ! d \<noteq> CHR ''-'' \<and> ''0123456789'' ! d \<noteq> CHR ''+''"
    by blast
  then show "isdigit (''0123456789'' ! d)" and "digit_value (''0123456789'' ! d) = int d"
    and "\<not> isspace (''0123456789'' ! d)"
    and "''0123456789'' ! d \<noteq> CHR ''-''" and "''0123456789'' ! d \<noteq> CHR ''+''"
    by simp_all
qed

lemma dec_digits:
  "dec n \<noteq> [] \<and> (\<forall>c \<in> set (dec n). isdigit c) \<and>
   foldl (\<lambda>acc c. 10 * acc + digit_value c) 0 (dec n) = int n \<and>
   \<not> isspace (hd (dec n)) \<and> hd (dec n) \<noteq> CHR ''-'' \<and> hd (dec n) \<noteq> CHR ''+''"
proof (induction n rule: dec.induct)
  case (1 n)
  show ?case
  proof (cases "n < 10")
    case True
    then show ?thesis
      using digit_char [OF True] by (simp add: dec.simps [of n])
  next
    case False
    have d: "n mod 10 < 10" by simp
    have unfold: "dec n = dec (n div 10) @ [''0123456789'' ! (n mod 10)]"
      using False by (simp add: dec.simps [of n])
    have "int n = 10 * int (n div 10) + int (n mod 10)"
      by (simp add: zdiv_int zmod_int)
    then show ?thesis
      using "1.IH" [OF False] digit_char [OF d] unfolding unfold by simp
  qed
qed

lemma strtoimax_dec:
  assumes "int n \<le> INTMAX_MAX"
  shows "strtoimax (dec n) = (int n, length (dec n))"
proof -
  obtain c cs where cs: "dec n = c # cs"
    using dec_digits [of n] by (cases "dec n") auto
  have c: "\<not> isspace c" "c \<noteq> CHR ''-''" "c \<noteq> CHR ''+''"
    using dec_digits [of n] unfolding cs by simp_all
  have spaces: "takeWhile isspace (dec n) = []" "dropWhile isspace (dec n) = dec n"
    using c unfolding cs by simp_all
  have hd: "hd (dec n) \<noteq> CHR ''-''" "hd (dec n) \<noteq> CHR ''+''"
    using c unfolding cs by simp_all
  have digits: "takeWhile isdigit (dec n) = dec n"
    using dec_digits [of n] by simp
  have val: "foldl (\<lambda>acc c. 10 * acc + digit_value c) 0 (dec n) = int n"
    using dec_digits [of n] by simp
  have clamp: "max INTMAX_MIN (min INTMAX_MAX (int n)) = int n"
    using assms by (simp add: INTMAX_MIN_def)
  show ?thesis
    unfolding strtoimax_def Let_def spaces
    using hd digits val clamp cs by simp
qed

lemma validated_dec: "int n \<le> INTMAX_MAX \<Longrightarrow> validated (dec n)"
  using dec_digits [of n] by (simp add: validated_def strtoimax_dec)

text \<open>
  A worker launched on a store whose vector \<open>i\<close> has at least \<open>range_sizes[i]\<close>
  entries is in range: it returns 0, having changed no vector but its own, and the loop
  goes on to the next worker on a store of the same shape. So every worker is in range,
  none ends in undefined behaviour, and the loop completes with one post for each worker.
\<close>

lemma launched_workers_in_range:
  assumes "\<forall>k < process_count. range_sizes ! k \<le> length (tables ! k)"
    and "\<forall>k < process_count. int (range_sizes ! k) \<le> INTMAX_MAX \<and>
           int (range_offsets ! k) \<le> INTMAX_MAX"
    and "int process_count \<le> INTMAX_MAX"
    and "segment os = Some (Some tables)" and "length tables = process_count"
    and "semaphore os = Some n_done"
  shows "\<exists>tables'.
     launch_workers cfg random_int range_sizes range_offsets process_count i os =
       Completed (os\<lparr>segment := Some (Some tables'),
                     semaphore := Some (n_done + (process_count - i))\<rparr>) \<and>
     length tables' = process_count \<and>
     (\<forall>k < process_count. length (tables' ! k) = length (tables ! k)) \<and>
     (\<forall>k < i. tables' ! k = tables ! k)"
  using assms
proof (induction "process_count - i" arbitrary: i os tables n_done)
  case 0
  then have stop: "\<not> i < process_count" by simp
  have "os\<lparr>segment := Some (Some tables), semaphore := Some n_done\<rparr> = os"
    using "0.prems"(4,6) by (cases os) simp
  then show ?case
    using stop "0.prems"(5)
    by (intro exI [of _ tables])
      (simp add: launch_workers.simps [of cfg random_int range_sizes range_offsets process_count i])
next
  case (Suc n)
  then have lt: "i < process_count" by simp
  define command where "command = [''./'' @ PACKAGE_NAME cfg @ ''-helper'', dec i,
      dec (range_offsets ! i), dec (range_sizes ! i)]"
  have small: "int i \<le> INTMAX_MAX" "int (range_offsets ! i) \<le> INTMAX_MAX"
    "int (range_sizes ! i) \<le> INTMAX_MAX"
    using lt Suc.prems(2,3) by simp_all
  have args: "length command = 4" "validated (command ! 1)" "validated (command ! 2)"
    "validated (command ! 3)"
    using small by (simp_all add: command_def validated_dec)
  have vals: "nat (fst (strtoimax (command ! 1))) = i"
    "nat (fst (strtoimax (command ! 3))) = range_sizes ! i"
    using small by (simp_all add: command_def strtoimax_dec)
  define off :: u64 where "off = of_int (fst (strtoimax (command ! 2)))"
  have p: "i < length tables" using lt Suc.prems(5) by simp
  have sz: "range_sizes ! i \<le> length (tables ! i)" using lt Suc.prems(1) by simp
  obtain t where
    run: "helper_loop (random_int i) i off (range_sizes ! i) 0 (Some tables) [] =
       Inr (Some t,
            [] @ map (\<lambda>j. Vector_Write i j (is_prime (random_int i j) (off + of_nat j)))
                   [0..<range_sizes ! i])"
    and len: "length t = length tables" "length (t ! i) = length (tables ! i)"
    using helper_loop_completes [OF p sz, of "random_int i" off 0 "[]"] by blast
  have others: "t ! q = tables ! q" if "q \<noteq> i" for q
    using helper_loop_others [OF p sz run that] .
  define os1 where "os1 = os\<lparr>segment := Some (Some t), semaphore := Some (n_done + 1)\<rparr>"
  have worker: "helper_main cfg (random_int i) command os =
      (Exit 0, os1,
       map (\<lambda>j. Vector_Write i j (is_prime (random_int i j) (off + of_nat j)))
         [0..<range_sizes ! i] @ [Semaphore_Post])"
    using run
    unfolding helper_main_loop [OF args Suc.prems(4,6)] vals off_def [symmetric] os1_def
    by simp
  have step: "launch_workers cfg random_int range_sizes range_offsets process_count i os =
      launch_workers cfg random_int range_sizes range_offsets process_count (i + 1) os1"
    using lt worker [unfolded command_def]
    by (simp add: launch_workers.simps [of cfg random_int range_sizes range_offsets process_count i])
  have lens: "length (t ! k) = length (tables ! k)" for k
    using len(2) others [of k] by (cases "k = i") simp_all
  have inv: "\<forall>k < process_count. range_sizes ! k \<le> length (t ! k)"
    using Suc.prems(1) lens by simp
  have os1: "segment os1 = Some (Some t)" "length t = process_count"
    "semaphore os1 = Some (n_done + 1)"
    using len(1) Suc.prems(5) by (simp_all add: os1_def)
  have n: "n = process_count - (i + 1)" using Suc.hyps(2) by simp
  obtain tables' where
    rest: "launch_workers cfg random_int range_sizes range_offsets process_count (i + 1) os1 =
       Completed (os1\<lparr>segment := Some (Some tables'),
                      semaphore := Some (n_done + 1 + (process_count - (i + 1)))\<rparr>)"
    and len': "length tables' = process_count"
    and lens': "\<forall>k < process_count. length (tables' ! k) = length (t ! k)"
    and before: "\<forall>k < i + 1. tables' ! k = t ! k"
    using Suc.hyps(1) [OF n inv Suc.prems(2,3) os1] by blast
  have count: "n_done + 1 + (process_count - (i + 1)) = n_done + (process_count - i)"
    using lt by simp
  have "tables' ! k = tables ! k" if "k < i" for k
    using before others [of k] that by simp
  then show ?case
    unfolding step rest count
    using len' lens' lens
    by (intro exI [of _ tables']) (simp add: os1_def)
qed

lemma await_workers_enough:
  assumes "semaphore os = Some n_done" and "process_count - i \<le> n_done"
  shows "await_workers process_count i os =
           Some (os\<lparr>semaphore := Some (n_done - (process_count - i))\<rparr>)"
  using assms
proof (induction "process_count - i" arbitrary: i os n_done)
  case 0
  then have stop: "\<not> i < process_count" by simp
  have "os\<lparr>semaphore := Some n_done\<rparr> = os"
    using "0.prems"(1) by (cases os) simp
  then show ?case
    using stop "0.hyps" by (simp add: await_workers.simps [of process_count i])
next
  case (Suc n)
  then have lt: "i < process_count" and pos: "n_done \<noteq> 0" by simp_all
  have n: "n = process_count - (i + 1)" using Suc.hyps(2) by simp
  have sem: "semaphore (os\<lparr>semaphore := Some (n_done - 1)\<rparr>) = Some (n_done - 1)"
    by simp
  have enough: "process_count - (i + 1) \<le> n_done - 1"
    using Suc.prems(2) lt by simp
  have count: "n_done - 1 - (process_count - (i + 1)) = n_done - (process_count - i)"
    using lt pos by simp
  show ?case
    using lt pos Suc.prems(1) Suc.hyps(1) [OF n sem enough]
    by (simp add: await_workers.simps [of process_count i os] count)
qed

text \<open>
  The \<open>try\<close> block on the partition it has just made, when neither name exists
  and the bound is within the range of \<open>std::intmax_t\<close>: the vectors have the sizes
  the workers are given, every worker is in range and returns 0, no wait blocks, and the
  block completes. No run of the orchestrator makes a worker write outside its vector.
\<close>

lemma try_block_completes:
  assumes "segment os = None" and "semaphore os = None"
    and "int max_prime \<le> INTMAX_MAX" and "int process_count \<le> INTMAX_MAX"
  shows "\<exists>os'. try_block cfg random_int prime_count process_count
                  (std_div max_prime process_count) os = Completed os'"
proof -
  obtain range_sizes range_offsets prime_tables where
    part: "partition max_prime process_count = (range_sizes, range_offsets, prime_tables)"
    by (cases "partition max_prime process_count") auto
  have loop: "partition_loop (std_div max_prime process_count) process_count 0
      (replicate process_count 0, replicate process_count 0, replicate process_count []) =
      (range_sizes, range_offsets, prime_tables)"
    using part by (simp add: partition_def)
  define os1 where "os1 = os\<lparr>segment := Some (Some prime_tables), semaphore := Some 0\<rparr>"
  have sizes: "\<forall>k < process_count. range_sizes ! k \<le> length (prime_tables ! k)"
    using partition_nth(4) [OF part] by simp
  have bounds: "\<forall>k < process_count. int (range_sizes ! k) \<le> INTMAX_MAX \<and>
           int (range_offsets ! k) \<le> INTMAX_MAX"
  proof (intro allI impI)
    fix k assume k: "k < process_count"
    have "range_sizes ! k \<le> max_prime" "range_offsets ! k \<le> max_prime"
      using partition_values_bounded(1,3) [OF part k] by simp_all
    then show "int (range_sizes ! k) \<le> INTMAX_MAX \<and> int (range_offsets ! k) \<le> INTMAX_MAX"
      using assms(3) by simp
  qed
  have os1: "segment os1 = Some (Some prime_tables)" "length prime_tables = process_count"
    "semaphore os1 = Some 0"
    using partition_length(3) [OF part] by (simp_all add: os1_def)
  obtain tables' where
    launched: "launch_workers cfg random_int range_sizes range_offsets process_count 0 os1 =
       Completed (os1\<lparr>segment := Some (Some tables'),
                      semaphore := Some (0 + (process_count - 0))\<rparr>)"
    using launched_workers_in_range [OF sizes bounds assms(4) os1, of cfg random_int 0]
    by blast
  define os2 where "os2 = os1\<lparr>segment := Some (Some tables'),
      semaphore := Some (0 + (process_count - 0))\<rparr>"
  have os2: "semaphore os2 = Some process_count" by (simp add: os2_def)
  have waited: "await_workers process_count 0 os2 =
      Some (os2\<lparr>semaphore := Some (process_count - (process_count - 0))\<rparr>)"
    using await_workers_enough [OF os2, of process_count 0] by simp
  have seg: "segment (os2\<lparr>semaphore := Some (process_count - (process_count - 0))\<rparr>) =
      Some (Some tables')"
    by (simp add: os2_def)
  show ?thesis
    using assms(1,2) launched [folded os2_def] waited seg
    by (simp add: try_block_def loop Let_def os1_def split: prod.splits)
qed

section \<open>The orchestrator\<close>

lemma main_body_validation_failure:
  assumes "fails_validation cfg argv"
  shows "\<exists>diagnostic. diagnostic \<noteq> [] \<and>
     main_body cfg rosser random_int argv os = (Exit 1, os\<lparr>cerr := cerr os @ diagnostic\<rparr>)"
proof (cases "length argv \<noteq> 3")
  case True
  then show ?thesis
    by (intro exI [of _ "show_usage cfg"]) (simp add: main_body_def show_usage_def)
next
  case len: False
  show ?thesis
  proof (cases "validated (argv ! 1)")
    case False
    then obtain msg where "check_argument cfg (strtoimax (argv ! 1)) 1 = Some msg"
      using check_argument_rejected by blast
    then show ?thesis
      using len by (intro exI [of _ "[msg]"]) (simp add: main_body_def Let_def)
  next
    case v1: True
    show ?thesis
    proof (cases "validated (argv ! 2)")
      case False
      then obtain msg where "check_argument cfg (strtoimax (argv ! 2)) 2 = Some msg"
        using check_argument_rejected by blast
      then show ?thesis
        using len v1
        by (intro exI [of _ "[msg]"]) (simp add: main_body_def Let_def check_argument_validated)
    next
      case v2: True
      then have exceed: "fst (strtoimax (argv ! 1)) \<noteq> 0 \<and>
          fst (strtoimax (argv ! 1)) <
            (if fst (strtoimax (argv ! 2)) = 0
             then min (CPU_COUNT cfg) (fst (strtoimax (argv ! 1)))
             else fst (strtoimax (argv ! 2)))"
        using assms len v1 unfolding fails_validation_def validated_def no_number_def
        by linarith
      show ?thesis
        using len v1 v2 exceed
        by (intro exI [of _ "[PACKAGE_NAME cfg @
              '': The number of processes must not exceed the number of primes.'']"])
          (auto simp add: main_body_def Let_def check_argument_validated split: if_splits)
    qed
  qed
qed

lemma main_2_5:
 "main a_config (always 12) (always (always (always 1)))
    [''./distributed-prime-numbers'', ''2'', ''5'']
    \<lparr>segment = Some (Some [[True]]), semaphore = Some 0, cout = [], cerr = []\<rparr> =
  (Exit 1, \<lparr>segment = None, semaphore = None, cout = [],
     cerr = [''distributed-prime-numbers: The number of processes must not exceed the number of primes.'']\<rparr>)"
  by code_simp

lemma main_0_5:
 "main a_config (always 12) (always (always (always 1)))
    [''./distributed-prime-numbers'', ''0'', ''5'']
    \<lparr>segment = None, semaphore = None, cout = [], cerr = []\<rparr> =
  (Exit 0, \<lparr>segment = None, semaphore = None, cout = [], cerr = []\<rparr>)"
  by code_simp

lemma fails_2_5: "fails_validation a_config [''./distributed-prime-numbers'', ''2'', ''5'']"
  by code_simp

lemma strtoimax_examples:
  "strtoimax ''0'' = (0, 1)" "strtoimax ''5'' = (5, 1)" "strtoimax ''7'' = (7, 1)"
  by code_simp+

lemma validated_examples: "validated ''0''" "validated ''7''"
  by code_simp+

lemma numeric_examples: "numeric ''0''" "numeric ''5''"
  by code_simp+

text \<open>
  C6 as stated: a run whose arguments fail validation, a worker count that exceeds the
  prime count among them, writes a diagnostic, exits with status 1 and touches no
  resource, the named store and semaphore being neither created nor otherwise affected.
  Two runs show otherwise. \<open>clean_up\<close> is registered before the arguments are looked at
  and runs when \<open>main\<close> returns: with 2 primes asked of 5 processes, a store and a
  semaphore that exist under the fixed names (those of another instance) are removed.
  And \<open>main\<close> returns 0 on the prime count 0 before it compares the two counts: with
  0 primes asked of 5 processes the worker count exceeds the prime count, and the run
  writes no diagnostic and exits with status 0.
\<close>

theorem validation_failure_removes_names_and_zero_primes_exit_0:
  "fails_validation a_config [''./distributed-prime-numbers'', ''2'', ''5''] \<and>
   segment (snd (main a_config (always 12) (always (always (always 1)))
      [''./distributed-prime-numbers'', ''2'', ''5'']
      \<lparr>segment = Some (Some [[True]]), semaphore = Some 0, cout = [], cerr = []\<rparr>)) = None \<and>
   semaphore (snd (main a_config (always 12) (always (always (always 1)))
      [''./distributed-prime-numbers'', ''2'', ''5'']
      \<lparr>segment = Some (Some [[True]]), semaphore = Some 0, cout = [], cerr = []\<rparr>)) = None \<and>
   numeric ''0'' \<and> numeric ''5'' \<and> fst (strtoimax ''0'') < fst (strtoimax ''5'') \<and>
   main a_config (always 12) (always (always (always 1)))
      [''./distributed-prime-numbers'', ''0'', ''5'']
      \<lparr>segment = None, semaphore = None, cout = [], cerr = []\<rparr> =
     (Exit 0, \<lparr>segment = None, semaphore = None, cout = [], cerr = []\<rparr>)"
  by (simp add: main_2_5 main_0_5 fails_2_5 numeric_examples strtoimax_examples)

text \<open>
  C6, amended. For every run of the orchestrator whose arguments fail validation (a
  non-numeric argument, a negative prime count or worker count, or a worker count that
  exceeds a non-zero prime count after 0 has been replaced by the default; the wrong
  number of arguments as well), each argument being either numeric throughout
  (\<open>std::strtoimax\<close> converts all of it) or without any number (it converts nothing),
  \<open>main\<close> writes a diagnostic to the error stream and returns 1, having written
  nothing to standard output and having neither created nor changed the named store
  and semaphore; the handler registered with \<open>std::atexit\<close> then removes both names,
  so that neither exists after the run. Nothing is said of an argument that starts with
  a number and goes on with other characters.
\<close>

theorem validation_failure_exits_1_and_creates_nothing:
  assumes "fails_validation cfg argv"
  shows "\<exists>diagnostic. diagnostic \<noteq> [] \<and>
     main_body cfg rosser random_int argv os = (Exit 1, os\<lparr>cerr := cerr os @ diagnostic\<rparr>) \<and>
     main cfg rosser random_int argv os = (Exit 1, clean_up (os\<lparr>cerr := cerr os @ diagnostic\<rparr>)) \<and>
     cerr (snd (main cfg rosser random_int argv os)) = cerr os @ diagnostic \<and>
     cout (snd (main cfg rosser random_int argv os)) = cout os \<and>
     segment (snd (main_body cfg rosser random_int argv os)) = segment os \<and>
     semaphore (snd (main_body cfg rosser random_int argv os)) = semaphore os \<and>
     segment (snd (main cfg rosser random_int argv os)) = None \<and>
     semaphore (snd (main cfg rosser random_int argv os)) = None"
proof -
  obtain diagnostic where "diagnostic \<noteq> []"
    and "main_body cfg rosser random_int argv os = (Exit 1, os\<lparr>cerr := cerr os @ diagnostic\<rparr>)"
    using main_body_validation_failure [OF assms] by blast
  then show ?thesis
    by (intro exI [of _ diagnostic]) (simp add: main_def clean_up_def)
qed

theorem validation_failure_exits_1_and_creates_nothing_witness:
  "fails_validation a_config [''./distributed-prime-numbers'', ''2'', ''5''] \<and>
   fst (main a_config (always 12) (always (always (always 1)))
      [''./distributed-prime-numbers'', ''2'', ''5'']
      \<lparr>segment = None, semaphore = None, cout = [], cerr = []\<rparr>) = Exit 1 \<and>
   segment (snd (main_body a_config (always 12) (always (always (always 1)))
      [''./distributed-prime-numbers'', ''2'', ''5'']
      \<lparr>segment = None, semaphore = None, cout = [], cerr = []\<rparr>)) = None"
proof -
  obtain diagnostic where
    "main a_config (always 12) (always (always (always 1)))
       [''./distributed-prime-numbers'', ''2'', ''5'']
       \<lparr>segment = None, semaphore = None, cout = [], cerr = []\<rparr> =
     (Exit 1, clean_up (\<lparr>segment = None, semaphore = None, cout = [], cerr = []\<rparr>
        \<lparr>cerr := cerr \<lparr>segment = None, semaphore = None, cout = [], cerr = []\<rparr> @ diagnostic\<rparr>))"
    and "segment (snd (main_body a_config (always 12) (always (always (always 1)))
       [''./distributed-prime-numbers'', ''2'', ''5'']
       \<lparr>segment = None, semaphore = None, cout = [], cerr = []\<rparr>)) =
     segment \<lparr>segment = None, semaphore = None, cout = [], cerr = []\<rparr>"
    using validation_failure_exits_1_and_creates_nothing [OF fails_2_5,
      of "always 12" "always (always (always 1))"
         "\<lparr>segment = None, semaphore = None, cout = [], cerr = []\<rparr>"]
    by blast
  then show ?thesis
    by (simp add: fails_2_5)
qed

text \<open>
  C8. For every run with \<open>prime_count == 0\<close> and any \<open>worker_count\<close> (any count that
  passes the argument checks, whether or not it exceeds \<open>prime_count\<close>), \<open>main\<close>
  returns 0 right after the argument checks: the exit status is 0, nothing is written
  to standard output or to the error stream, and no store or semaphore is created (the
  state is unchanged when \<open>main\<close> returns; the exit handler then runs \<open>clean_up\<close>).
\<close>

theorem zero_primes_exits_0_without_resources:
  assumes "length argv = 3" and "validated (argv ! 1)" and "validated (argv ! 2)"
    and "fst (strtoimax (argv ! 1)) = 0"
  shows "main_body cfg rosser random_int argv os = (Exit 0, os) \<and>
         main cfg rosser random_int argv os = (Exit 0, clean_up os) \<and>
         cout (snd (main cfg rosser random_int argv os)) = cout os \<and>
         cerr (snd (main cfg rosser random_int argv os)) = cerr os"
  using assms by (simp add: main_def main_body_def Let_def check_argument_validated clean_up_def)

theorem zero_primes_exits_0_without_resources_witness:
  "length [''./distributed-prime-numbers'', ''0'', ''7''] = 3 \<and>
   validated ''0'' \<and> validated ''7'' \<and> fst (strtoimax ''0'') = 0 \<and>
   main a_config (always 12) (always (always (always 1)))
      [''./distributed-prime-numbers'', ''0'', ''7'']
      \<lparr>segment = None, semaphore = None, cout = [], cerr = []\<rparr> =
     (Exit 0, \<lparr>segment = None, semaphore = None, cout = [], cerr = []\<rparr>)"
  using zero_primes_exits_0_without_resources
    [of "[''./distributed-prime-numbers'', ''0'', ''7'']" a_config "always 12"
        "always (always (always 1))"
        "\<lparr>segment = None, semaphore = None, cout = [], cerr = []\<rparr>"]
  by (simp add: validated_examples strtoimax_examples clean_up_def)

text \<open>
  A run with valid counts, when neither name exists and the bound is within the range
  of \<open>std::intmax_t\<close>: \<open>main\<close> returns 0. In particular no worker that it launches
  ends in undefined behaviour.
\<close>

lemma strtoimax_le_INTMAX_MAX: "fst (strtoimax str) \<le> INTMAX_MAX"
  by (simp add: strtoimax_def Let_def INTMAX_MAX_def INTMAX_MIN_def)

lemma main_valid_counts_exits_0:
  assumes "length argv = 3" and "validated (argv ! 1)" and "validated (argv ! 2)"
    and "fst (strtoimax (argv ! 1)) \<noteq> 0"
    and "process_count =
           (if fst (strtoimax (argv ! 2)) = 0
            then min (CPU_COUNT cfg) (fst (strtoimax (argv ! 1)))
            else fst (strtoimax (argv ! 2)))"
    and "1 \<le> process_count" and "process_count \<le> fst (strtoimax (argv ! 1))"
    and "segment os = None" and "semaphore os = None"
    and "int (rosser (fst (strtoimax (argv ! 1)))) \<le> INTMAX_MAX"
  shows "fst (main cfg rosser random_int argv os) = Exit 0"
proof -
  define prime_count where "prime_count = fst (strtoimax (argv ! 1))"
  define max_prime where "max_prime = (if prime_count < 6 then 12 else rosser prime_count)"
  have bound: "int max_prime \<le> INTMAX_MAX"
    using assms(10) by (simp add: max_prime_def prime_count_def INTMAX_MAX_def)
  have count: "int (nat process_count) \<le> INTMAX_MAX"
    using assms(6,7) strtoimax_le_INTMAX_MAX [of "argv ! 1"] by simp
  obtain os' where block: "try_block cfg random_int prime_count (nat process_count)
      (std_div max_prime (nat process_count)) os = Completed os'"
    using try_block_completes [OF assms(8,9) bound count] by blast
  have "main_body cfg rosser random_int argv os = (Exit 0, os')"
    using assms(1-4,6,7) block
    unfolding main_body_def Let_def assms(5) [symmetric] prime_count_def max_prime_def
    by (simp add: check_argument_validated)
  then show ?thesis by (simp add: main_def)
qed

text \<open>
  An argument that starts with a number and goes on with other characters:
  \<open>check_argument\<close> tests only whether \<open>std::strtoimax\<close> has converted something, so
  \<open>5abc\<close> passes as 5 and the run writes the first five primes. The statements on
  validation above leave these arguments out.
\<close>

lemma main_5abc_1_process:
  "\<not> numeric ''5abc'' \<and> \<not> no_number ''5abc'' \<and> validated ''5abc'' \<and>
   main a_config (always 12) small_draws [''./distributed-prime-numbers'', ''5abc'', ''1'']
     \<lparr>segment = None, semaphore = None, cout = [], cerr = []\<rparr> =
   (Exit 0, \<lparr>segment = None, semaphore = None, cout = [2, 3, 5, 7, 11], cerr = []\<rparr>)"
  by code_simp

text \<open>
  A whole run of the model: 5 primes on 1 process. The bound is 12, the worker tests
  \<open>0, \<dots>, 11\<close>, the orchestrator writes the first five primes and both names are
  removed at exit.
\<close>

lemma main_5_primes_1_process:
  "main a_config (always 12) small_draws [''./distributed-prime-numbers'', ''5'', ''1'']
     \<lparr>segment = None, semaphore = None, cout = [], cerr = []\<rparr> =
   (Exit 0, \<lparr>segment = None, semaphore = None, cout = [2, 3, 5, 7, 11], cerr = []\<rparr>)"
  by code_simp

end
